theory Spec2Isabelle
  imports Main "HOL-Library.Char_ord" "HOL-Library.List_Lexorder"
begin

section \<open>Data model (lisa/testsuite.py)\<close>

text \<open>
  \<^verbatim>\<open>TestStatus = Enum("TestStatus", ["NOTRUN", "RUNNING", "FAILED", "PASSED", "SKIPPED",
  "ATTEMPTED"])\<close>
\<close>

datatype TestStatus = NOTRUN | RUNNING | FAILED | PASSED | SKIPPED | ATTEMPTED

text \<open>
  A raised Python exception: its class, as far as the code distinguishes classes
  (\<^verbatim>\<open>except WaitMoreResourceError\<close> in the runner, \<^verbatim>\<open>assert\<close> statements, the exceptions that
  the sources raise themselves; \<open>Exception\<close> stands for any other class), and the text that
  \<^verbatim>\<open>str(identifier)\<close> gives. All of them are subclasses of \<^verbatim>\<open>Exception\<close>, the class that
  the \<^verbatim>\<open>except Exception\<close> clauses of the suite runner catch. Exceptions outside
  \<^verbatim>\<open>Exception\<close> (\<^verbatim>\<open>KeyboardInterrupt\<close>, \<^verbatim>\<open>SystemExit\<close>) are not modelled.
\<close>

datatype exn =
    WaitMoreResourceError string
  | AssertionError string
  | NotImplementedError string
  | LisaException string
  | Exception string

fun str_of :: "exn \<Rightarrow> string" where
  "str_of (WaitMoreResourceError m) = m"
| "str_of (AssertionError m) = m"
| "str_of (NotImplementedError m) = m"
| "str_of (LisaException m) = m"
| "str_of (Exception m) = m"

text \<open>
  \<^verbatim>\<open>search_space.ResultReason\<close> (lisa/search_space.py is not among the sources): the code
  reads its attributes \<^verbatim>\<open>result\<close> and \<^verbatim>\<open>reasons\<close>; its method \<^verbatim>\<open>merge\<close> is a parameter of
  the model (field \<open>merge\<close> of the record \<open>externals\<close> below).
\<close>

record ResultReason =
  result :: bool
  reasons :: "string list"

text \<open>
  \<^verbatim>\<open>search_space.SetSpace\<close>, as the sources construct it
  (\<^verbatim>\<open>SetSpace(is_allow_set=True, items=[platform_type])\<close>). The runner takes \<^verbatim>\<open>len\<close> of it, so
  its truth value is that of a container: false when empty.
\<close>

record 'a SetSpace =
  is_allow_set :: bool
  items :: "'a list"

text \<open>
  \<^verbatim>\<open>TestCaseRequirement\<close>. The type \<open>'es\<close> stands for \<^verbatim>\<open>EnvironmentSpace\<close> (lisa/environment.py
  is not among the sources); operating-system classes are named by strings.
\<close>

record 'es TestCaseRequirement =
  environment :: "'es option"
  platform_type :: "string SetSpace option"
  os_type :: "string SetSpace option"

text \<open>
  \<^verbatim>\<open>TestCaseRuntimeData\<close> with the attributes of \<^verbatim>\<open>TestCaseMetadata\<close> and of its suite that the
  code reads through the \<^verbatim>\<open>__getattr__\<close> delegation (\<^verbatim>\<open>name\<close>, \<^verbatim>\<open>full_name\<close>, \<^verbatim>\<open>requirement\<close>,
  \<^verbatim>\<open>suite\<close>). A suite is identified by its name: the registry \<^verbatim>\<open>_all_suites\<close> refuses a second
  suite of the same name, so comparing suite objects is comparing names. \<^verbatim>\<open>retry\<close> is a Python
  \<^verbatim>\<open>int\<close>.
\<close>

record 'es TestCaseRuntimeData =
  name :: string
  full_name :: string
  suite :: string
  requirement :: "'es TestCaseRequirement"
  select_action :: string
  times :: int
  retry :: int
  use_new_environment :: bool
  ignore_failure :: bool
  environment_name :: string

text \<open>
  \<^verbatim>\<open>TestResult\<close>. The field \<^verbatim>\<open>elapsed\<close> holds wall-clock readings of a timer and is left out;
  nothing in the code reads it back.
\<close>

record 'es TestResult =
  runtime_data :: "'es TestCaseRuntimeData"
  status :: TestStatus
  message :: string
  env :: string
  check_results :: "ResultReason option"

text \<open>\<^verbatim>\<open>TestResultMessage\<close>, the event handed to \<^verbatim>\<open>notifier.notify\<close> (without \<^verbatim>\<open>elapsed\<close>).\<close>

record TestResultMessage =
  msg_type :: string
  msg_status :: TestStatus
  msg_message :: string
  msg_env :: string

definition can_run :: "'es TestResult \<Rightarrow> bool" where
  "can_run r \<longleftrightarrow> status r = NOTRUN"

text \<open>The argument \<^verbatim>\<open>message: Union[str, List[str]]\<close> of \<^verbatim>\<open>set_status\<close>.\<close>

datatype message_arg = Str string | StrList "string list"

fun truthy :: "message_arg \<Rightarrow> bool" where
  "truthy (Str s) = (s \<noteq> [])"
| "truthy (StrList l) = (l \<noteq> [])"

fun as_list :: "message_arg \<Rightarrow> string list" where
  "as_list (Str s) = [s]"
| "as_list (StrList l) = l"

text \<open>\<^verbatim>\<open>sep.join(xs)\<close>\<close>

fun join :: "string \<Rightarrow> string list \<Rightarrow> string" where
  "join sep [] = []"
| "join sep [x] = x"
| "join sep (x # y # ys) = x @ sep @ join sep (y # ys)"

definition newline :: string where
  "newline = [CHR 0x0A]"

text \<open>
  \<^verbatim>\<open>TestResult.set_status\<close>: returns the updated result and the messages handed to the notifier
  (none or one).
  \<^verbatim>\<open>
    if message:
        if isinstance(message, str):
            message = [message]
        if self.message:
            message.insert(0, self.message)
        self.message = "\n".join(message)
    if self.status != new_status:
        self.status = new_status
        ...
        notifier.notify(result_message)
  \<close>
\<close>

definition set_message :: "message_arg \<Rightarrow> 'es TestResult \<Rightarrow> 'es TestResult" where
  "set_message m r =
     (if truthy m
      then r\<lparr>message := join newline (if message r \<noteq> [] then message r # as_list m else as_list m)\<rparr>
      else r)"

definition result_message :: "'es TestResult \<Rightarrow> TestResultMessage" where
  "result_message r =
     \<lparr>msg_type = ''TestResult'', msg_status = status r, msg_message = message r, msg_env = env r\<rparr>"

definition set_status ::
  "TestStatus \<Rightarrow> message_arg \<Rightarrow> 'es TestResult \<Rightarrow> 'es TestResult \<times> TestResultMessage list" where
  "set_status new_status m r =
     (let r1 = set_message m r
      in if status r1 \<noteq> new_status
         then (let r2 = r1\<lparr>status := new_status\<rparr> in (r2, [result_message r2]))
         else (r1, []))"

section \<open>Program state\<close>

text \<open>
  Calls that leave the modelled code, in the order they are made: the hooks and test methods
  of a suite (with the reference of the result they run for), the provider's
  \<^verbatim>\<open>deploy_environment\<close> and \<^verbatim>\<open>delete_environment\<close>, and \<^verbatim>\<open>notifier.notify\<close>.
\<close>

datatype 'e event =
    BeforeSuite | AfterSuite
  | BeforeCase nat | TestMethod nat | AfterCase nat
  | Deploy 'e | Delete 'e
  | Notify TestResultMessage

text \<open>
  \<open>heap\<close> holds the \<^verbatim>\<open>TestResult\<close> objects: the Python lists \<^verbatim>\<open>selected_test_results\<close>,
  \<^verbatim>\<open>can_run_results\<close>, \<^verbatim>\<open>grouped_cases\<close> and \<^verbatim>\<open>case_results\<close> all refer to the same objects, so
  the lists of the model hold references (heap addresses) and every update goes to the heap.
  \<open>world\<close> is everything the collaborators own (the suite object, environments, the remote
  nodes); the hooks and the provider change it and cannot reach the heap of results.
  \<open>trace\<close> records the calls of type \<open>event\<close>.
\<close>

record ('es, 'e, 'w) state =
  heap :: "nat \<Rightarrow> 'es TestResult"
  world :: 'w
  trace :: "'e event list"

text \<open>
  \<^verbatim>\<open>case_result.set_status(new_status, message)\<close> on the object at address \<open>c\<close>. The call of
  \<^verbatim>\<open>notifier.notify\<close> is recorded in the trace and returns normally (lisa/notifier.py is not
  among the sources; it hands the message to the registered notifiers).
\<close>

definition set_status_at ::
  "nat \<Rightarrow> TestStatus \<Rightarrow> message_arg \<Rightarrow> ('es, 'e, 'w) state \<Rightarrow> ('es, 'e, 'w) state" where
  "set_status_at c new_status m s =
     (case set_status new_status m (heap s c) of
        (r, ns) \<Rightarrow> s\<lparr>heap := (heap s)(c := r), trace := trace s @ map Notify ns\<rparr>)"

text \<open>
  A hook or a test method: it changes the world and returns normally (\<open>None\<close>) or raises.
\<close>

type_synonym 'w hook = "'w \<Rightarrow> exn option \<times> 'w"

definition invoke ::
  "'e event \<Rightarrow> 'w hook \<Rightarrow> ('es, 'e, 'w) state \<Rightarrow> exn option \<times> ('es, 'e, 'w) state" where
  "invoke ev h s = (case h (world s) of (r, w) \<Rightarrow> (r, s\<lparr>world := w, trace := trace s @ [ev]\<rparr>))"

section \<open>Retrying (package retry)\<close>

text \<open>
  \<^verbatim>\<open>retry_call(f, exceptions=Exception, tries=n, logger=...)\<close> of the third-party package
  \<^verbatim>\<open>retry\<close>, with its default delay of zero:
  \<^verbatim>\<open>
    _tries = tries
    while _tries:
        try:
            return f()
        except exceptions as e:
            _tries -= 1
            if not _tries:
                raise
  \<close>
  With \<open>tries = 0\<close> the function is not called at all and the call returns normally; with
  \<open>tries < 0\<close> the loop ends only when \<open>f\<close> returns normally, so it may run forever: the
  result \<open>None\<close> of the model.
\<close>

partial_function (option) retry_call ::
  "('s \<Rightarrow> exn option \<times> 's) \<Rightarrow> int \<Rightarrow> 's \<Rightarrow> (exn option \<times> 's) option" where
  "retry_call f tries s =
     (if tries = 0 then Some (None, s)
      else (case f s of
              (None, s1) \<Rightarrow> Some (None, s1)
            | (Some e, s1) \<Rightarrow>
                if tries - 1 = 0 then Some (Some e, s1) else retry_call f (tries - 1) s1))"

section \<open>Execution engine (TestSuite.start)\<close>

text \<open>
  A suite class: its four hooks, its test methods by name (\<^verbatim>\<open>getattr(self, case_name)\<close>; the
  names of the cases of a suite are names of methods of its class, by registration), and the
  attribute \<^verbatim>\<open>_should_stop\<close> of the suite object, read from the world. The hooks see the
  environment the suite runs on. \<open>new_suite\<close> is what building the suite object
  (\<^verbatim>\<open>test_class(environment, cases, metadata)\<close>) does to the world.
\<close>

record ('e, 'w) test_class =
  before_suite :: "'e \<Rightarrow> 'w hook"
  after_suite :: "'e \<Rightarrow> 'w hook"
  before_case :: "'e \<Rightarrow> 'w hook"
  after_case :: "'e \<Rightarrow> 'w hook"
  test_method :: "string \<Rightarrow> 'e \<Rightarrow> 'w hook"
  should_stop :: "'w \<Rightarrow> bool"
  new_suite :: "'e \<Rightarrow> 'w \<Rightarrow> 'w"

text \<open>
  Lines 311 to 329 of \<^verbatim>\<open>TestSuite.start\<close>: the \<^verbatim>\<open>before_case\<close> part of one pass of the loop;
  returns \<^verbatim>\<open>is_continue\<close>.
\<close>

definition before_case_part ::
  "('e, 'w) test_class \<Rightarrow> 'e \<Rightarrow> bool \<Rightarrow> string \<Rightarrow> nat \<Rightarrow> ('es, 'e, 'w) state
     \<Rightarrow> (bool \<times> ('es, 'e, 'w) state) option" where
  "before_case_part cls e is_suite_continue suite_error_message c s =
     (if is_suite_continue
      then (case retry_call (invoke (BeforeCase c) (before_case cls e))
                   (retry (runtime_data (heap s c)) + 1) s of
              None \<Rightarrow> None
            | Some (None, s1) \<Rightarrow> Some (True, s1)
            | Some (Some x, s1) \<Rightarrow>
                Some (False, set_status_at c SKIPPED (Str (''before_case: '' @ str_of x)) s1))
      else Some (False, set_status_at c SKIPPED (Str suite_error_message) s))"

text \<open>Lines 331 to 351: the test method.\<close>

definition test_method_part ::
  "('e, 'w) test_class \<Rightarrow> 'e \<Rightarrow> bool \<Rightarrow> nat \<Rightarrow> ('es, 'e, 'w) state
     \<Rightarrow> ('es, 'e, 'w) state option" where
  "test_method_part cls e is_continue c s =
     (if is_continue
      then (case retry_call
                   (invoke (TestMethod c) (test_method cls (name (runtime_data (heap s c))) e))
                   (retry (runtime_data (heap s c)) + 1) s of
              None \<Rightarrow> None
            | Some (None, s1) \<Rightarrow> Some (set_status_at c PASSED (Str []) s1)
            | Some (Some x, s1) \<Rightarrow>
                if ignore_failure (runtime_data (heap s1 c))
                then Some (set_status_at c ATTEMPTED (Str (str_of x)) s1)
                else Some (set_status_at c FAILED (Str (''failed: '' @ str_of x)) s1))
      else Some s)"

text \<open>Lines 353 to 364: \<^verbatim>\<open>after_case\<close>; an exception is logged and dropped.\<close>

definition after_case_part ::
  "('e, 'w) test_class \<Rightarrow> 'e \<Rightarrow> nat \<Rightarrow> ('es, 'e, 'w) state \<Rightarrow> ('es, 'e, 'w) state option" where
  "after_case_part cls e c s =
     (case retry_call (invoke (AfterCase c) (after_case cls e))
             (retry (runtime_data (heap s c)) + 1) s of
        None \<Rightarrow> None
      | Some (_, s1) \<Rightarrow> Some s1)"

text \<open>One pass of the loop over \<^verbatim>\<open>self.case_results\<close>, up to the test of \<^verbatim>\<open>_should_stop\<close>.\<close>

definition run_case ::
  "('e, 'w) test_class \<Rightarrow> 'e \<Rightarrow> bool \<Rightarrow> string \<Rightarrow> nat \<Rightarrow> ('es, 'e, 'w) state
     \<Rightarrow> ('es, 'e, 'w) state option" where
  "run_case cls e is_suite_continue suite_error_message c s =
     (case before_case_part cls e is_suite_continue suite_error_message c s of
        None \<Rightarrow> None
      | Some (is_continue, s1) \<Rightarrow>
          (case test_method_part cls e is_continue c s1 of
             None \<Rightarrow> None
           | Some s2 \<Rightarrow> after_case_part cls e c s2))"

text \<open>
  The loop itself: after each case, \<^verbatim>\<open>if self._should_stop: ... break\<close>. The status of the
  action (\<^verbatim>\<open>self.set_status(ActionStatus.STOPPED)\<close>), the timers and the log are not part of the
  state: no result depends on them.
\<close>

fun run_cases ::
  "('e, 'w) test_class \<Rightarrow> 'e \<Rightarrow> bool \<Rightarrow> string \<Rightarrow> nat list \<Rightarrow> ('es, 'e, 'w) state
     \<Rightarrow> ('es, 'e, 'w) state option" where
  "run_cases cls e is_suite_continue suite_error_message [] s = Some s"
| "run_cases cls e is_suite_continue suite_error_message (c # cs) s =
     (case run_case cls e is_suite_continue suite_error_message c s of
        None \<Rightarrow> None
      | Some s1 \<Rightarrow>
          if should_stop cls (world s1) then Some s1
          else run_cases cls e is_suite_continue suite_error_message cs s1)"

text \<open>
  \<^verbatim>\<open>TestSuite.start\<close>: \<^verbatim>\<open>before_suite\<close> once (an exception sets \<^verbatim>\<open>suite_error_message\<close> and
  clears \<^verbatim>\<open>is_suite_continue\<close>), the loop, \<^verbatim>\<open>after_suite\<close> once (an exception is logged and
  dropped).
\<close>

definition TestSuite_start ::
  "('e, 'w) test_class \<Rightarrow> 'e \<Rightarrow> nat list \<Rightarrow> ('es, 'e, 'w) state \<Rightarrow> ('es, 'e, 'w) state option" where
  "TestSuite_start cls e case_results s =
     (case invoke BeforeSuite (before_suite cls e) s of
        (r, s0) \<Rightarrow>
          (case run_cases cls e (r = None)
                  (case r of None \<Rightarrow> [] | Some x \<Rightarrow> ''before_suite: '' @ str_of x)
                  case_results s0 of
             None \<Rightarrow> None
           | Some s1 \<Rightarrow> Some (snd (invoke AfterSuite (after_suite cls e) s1))))"

section \<open>Scheduler (lisa/lisarunner.py)\<close>

text \<open>
  What the runner calls and does not own. The modules lisa/platform_.py,
  lisa/environment.py and lisa/search_space.py are not among the sources, so their
  operations are parameters of the model:
  \<^item> the provider: \<^verbatim>\<open>platform.type_name()\<close>, \<^verbatim>\<open>prepare_environments\<close>, \<^verbatim>\<open>deploy_environment\<close>,
    \<^verbatim>\<open>delete_environment\<close>;
  \<^item> the environment registry: \<^verbatim>\<open>from_requirement\<close>, \<^verbatim>\<open>get_or_create\<close>;
  \<^item> an environment object \<open>e\<close>, whose attributes are read from the world: \<^verbatim>\<open>is_ready\<close>,
    \<^verbatim>\<open>name\<close>, for each of its nodes the classes \<^verbatim>\<open>type(node.os).__mro__\<close>, and
    \<^verbatim>\<open>requirement.environment.check(environment.capability)\<close>;
  \<^item> \<^verbatim>\<open>SetSpace.check\<close> and \<^verbatim>\<open>ResultReason.merge\<close> (the label is \<open>None\<close> where the call gives
    none);
  \<^item> the suite classes by suite name (\<^verbatim>\<open>suite_metadata.test_class\<close>);
  \<^item> Python's \<^verbatim>\<open>repr\<close> of a string, used when a list of reasons is formatted.
\<close>

datatype 'a result = Raise exn | Return 'a

record ('es, 'e, 'w) externals =
  type_name :: string
  prepare_environments :: "'w \<Rightarrow> 'e list result \<times> 'w"
  deploy_environment :: "'e \<Rightarrow> 'w hook"
  delete_environment :: "'e \<Rightarrow> 'w hook"
  from_requirement :: "'es \<Rightarrow> 'w hook"
  get_or_create :: "'es \<Rightarrow> 'w hook"
  is_ready :: "'e \<Rightarrow> 'w \<Rightarrow> bool"
  env_name :: "'e \<Rightarrow> 'w \<Rightarrow> string"
  nodes_os_mro :: "'e \<Rightarrow> 'w \<Rightarrow> string list list"
  environment_check :: "'es \<Rightarrow> 'e \<Rightarrow> 'w \<Rightarrow> ResultReason"
  set_check :: "string SetSpace \<Rightarrow> string SetSpace \<Rightarrow> ResultReason"
  merge :: "ResultReason \<Rightarrow> ResultReason \<Rightarrow> string option \<Rightarrow> ResultReason"
  suite_class :: "string \<Rightarrow> ('e, 'w) test_class"
  str_repr :: "string \<Rightarrow> string"

text \<open>
  A statement of the runner either raises or returns, and leaves a state in both cases;
  \<open>None\<close> is a call that never returns (only \<^verbatim>\<open>retry_call\<close> can do that).
\<close>

definition and_then ::
  "('a result \<times> 's) option \<Rightarrow> ('a \<Rightarrow> 's \<Rightarrow> ('b result \<times> 's) option)
     \<Rightarrow> ('b result \<times> 's) option" where
  "and_then m f =
     (case m of
        None \<Rightarrow> None
      | Some (Raise x, s) \<Rightarrow> Some (Raise x, s)
      | Some (Return a, s) \<Rightarrow> f a s)"

text \<open>The truth value of an optional \<^verbatim>\<open>SetSpace\<close>: not \<^verbatim>\<open>None\<close> and not empty.\<close>

definition set_space_true :: "'a SetSpace option \<Rightarrow> bool" where
  "set_space_true x = (case x of None \<Rightarrow> False | Some sp \<Rightarrow> items sp \<noteq> [])"

text \<open>
  The loop over the nodes in \<^verbatim>\<open>TestResult.check_environment\<close>:
  \<^verbatim>\<open>
    for node in environment.nodes.list():
        node_os_capability = search_space.SetSpace[Type[OperatingSystem]](
            is_allow_set=True, items=type(node.os).__mro__)
        check_result.merge(requirement.os_type.check(node_os_capability), "os_type")
        if not check_result.result:
            break
  \<close>
\<close>

fun check_nodes ::
  "('es, 'e, 'w) externals \<Rightarrow> string SetSpace \<Rightarrow> string list list \<Rightarrow> ResultReason
     \<Rightarrow> ResultReason" where
  "check_nodes ext os_req [] check_result = check_result"
| "check_nodes ext os_req (mro # nodes) check_result =
     (let merged = merge ext check_result
                     (set_check ext os_req \<lparr>is_allow_set = True, items = mro\<rparr>) (Some ''os_type'')
      in if \<not> result merged then merged else check_nodes ext os_req nodes merged)"

text \<open>
  \<^verbatim>\<open>TestResult.check_environment(environment, save_reason)\<close> on the result at address \<open>c\<close>.
\<close>

definition check_environment ::
  "('es, 'e, 'w) externals \<Rightarrow> nat \<Rightarrow> 'e \<Rightarrow> bool \<Rightarrow> ('es, 'e, 'w) state
     \<Rightarrow> bool result \<times> ('es, 'e, 'w) state" where
  "check_environment ext c e save_reason s =
     (let self = heap s c; req = requirement (runtime_data self)
      in case environment req of
           None \<Rightarrow> (Raise (AssertionError []), s)
         | Some space \<Rightarrow>
             (let first = environment_check ext space e (world s);
                  check_result =
                    (if result first \<and> set_space_true (os_type req) \<and> is_ready ext e (world s)
                     then check_nodes ext (the (os_type req)) (nodes_os_mro ext e (world s)) first
                     else first);
                  s1 = (if save_reason
                        then s\<lparr>heap := (heap s)(c := self\<lparr>check_results :=
                               Some (case check_results self of
                                       Some old \<Rightarrow> merge ext old check_result None
                                     | None \<Rightarrow> check_result)\<rparr>)\<rparr>
                        else s)
              in (Return (result check_result), s1)))"

text \<open>
  \<^verbatim>\<open>LisaRunner._run_suite\<close>: \<^verbatim>\<open>assert cases\<close>, the suite object is built from the class of the
  first case's suite, every case gets \<^verbatim>\<open>case.env = environment.name\<close>, and the suite is started.
\<close>

definition set_env :: "string \<Rightarrow> nat list \<Rightarrow> (nat \<Rightarrow> 'es TestResult) \<Rightarrow> (nat \<Rightarrow> 'es TestResult)" where
  "set_env n cases h = fold (\<lambda>c h. h(c := (h c)\<lparr>env := n\<rparr>)) cases h"

definition run_suite ::
  "('es, 'e, 'w) externals \<Rightarrow> 'e \<Rightarrow> nat list \<Rightarrow> ('es, 'e, 'w) state
     \<Rightarrow> (unit result \<times> ('es, 'e, 'w) state) option" where
  "run_suite ext e cases s =
     (case cases of
        [] \<Rightarrow> Some (Raise (AssertionError []), s)
      | c0 # _ \<Rightarrow>
          (let cls = suite_class ext (suite (runtime_data (heap s c0)));
               s1 = s\<lparr>world := new_suite cls e (world s)\<rparr>;
               s2 = s1\<lparr>heap := set_env (env_name ext e (world s1)) cases (heap s1)\<rparr>
           in case TestSuite_start cls e cases s2 of
                None \<Rightarrow> None
              | Some s3 \<Rightarrow> Some (Return (), s3)))"

text \<open>
  Lines 71 to 75: \<^verbatim>\<open>any(case.can_run and case.check_environment(environment, True) for case in
  can_run_results)\<close>; the generator stops at the first true value.
\<close>

fun any_needed ::
  "('es, 'e, 'w) externals \<Rightarrow> 'e \<Rightarrow> nat list \<Rightarrow> ('es, 'e, 'w) state
     \<Rightarrow> bool result \<times> ('es, 'e, 'w) state" where
  "any_needed ext e [] s = (Return False, s)"
| "any_needed ext e (c # cs) s =
     (if can_run (heap s c)
      then (case check_environment ext c e True s of
              (Raise x, s1) \<Rightarrow> (Raise x, s1)
            | (Return b, s1) \<Rightarrow> if b then (Return True, s1) else any_needed ext e cs s1)
      else any_needed ext e cs s)"

text \<open>
  Lines 103 to 108: the first result of \<^verbatim>\<open>new_env_can_run_results\<close> that the environment
  satisfies runs alone, then \<^verbatim>\<open>break\<close>.
\<close>

fun run_new_env ::
  "('es, 'e, 'w) externals \<Rightarrow> 'e \<Rightarrow> nat list \<Rightarrow> ('es, 'e, 'w) state
     \<Rightarrow> (unit result \<times> ('es, 'e, 'w) state) option" where
  "run_new_env ext e [] s = Some (Return (), s)"
| "run_new_env ext e (c # cs) s =
     (case check_environment ext c e True s of
        (Raise x, s1) \<Rightarrow> Some (Raise x, s1)
      | (Return b, s1) \<Rightarrow> if b then run_suite ext e [c] s1 else run_new_env ext e cs s1)"

text \<open>
  Lines 111 to 132: the loop that collects \<^verbatim>\<open>grouped_cases\<close> and runs a batch whenever the
  suite changes; returns the last, not yet run, batch.
\<close>

fun run_grouped ::
  "('es, 'e, 'w) externals \<Rightarrow> 'e \<Rightarrow> nat list \<Rightarrow> nat list \<Rightarrow> string option
     \<Rightarrow> ('es, 'e, 'w) state \<Rightarrow> (nat list result \<times> ('es, 'e, 'w) state) option" where
  "run_grouped ext e [] grouped_cases current_test_suite s = Some (Return grouped_cases, s)"
| "run_grouped ext e (c # cs) grouped_cases current_test_suite s =
     (if can_run (heap s c)
      then (case check_environment ext c e True s of
              (Raise x, s1) \<Rightarrow> Some (Raise x, s1)
            | (Return b, s1) \<Rightarrow>
                if b \<and> \<not> use_new_environment (runtime_data (heap s1 c))
                then (if Some (suite (runtime_data (heap s1 c))) \<noteq> current_test_suite
                         \<and> grouped_cases \<noteq> []
                      then (case run_suite ext e grouped_cases s1 of
                              None \<Rightarrow> None
                            | Some (Raise x, s2) \<Rightarrow> Some (Raise x, s2)
                            | Some (Return _, s2) \<Rightarrow>
                                run_grouped ext e cs [c]
                                  (Some (suite (runtime_data (heap s2 c)))) s2)
                      else run_grouped ext e cs (grouped_cases @ [c])
                             (Some (suite (runtime_data (heap s1 c)))) s1)
                else run_grouped ext e cs grouped_cases current_test_suite s1)
      else run_grouped ext e cs grouped_cases current_test_suite s)"

text \<open>
  How the \<^verbatim>\<open>try\<close> block of one pass of the loop over the environments is left, when it does
  not raise: by \<^verbatim>\<open>break\<close>, or towards the next environment (\<^verbatim>\<open>continue\<close> or the end of the
  block).
\<close>

datatype control = Break | Next

text \<open>
  Lines 84 to 91, the inner \<^verbatim>\<open>try\<close>:
  \<^verbatim>\<open>
    try:
        platform.deploy_environment(environment)
    except WaitMoreResourceError as identifier:
        ...
        continue
  \<close>
  Returns whether \<^verbatim>\<open>deploy_environment\<close> returned normally; any other exception goes on.
\<close>

definition deploy ::
  "('es, 'e, 'w) externals \<Rightarrow> 'e \<Rightarrow> ('es, 'e, 'w) state \<Rightarrow> bool result \<times> ('es, 'e, 'w) state" where
  "deploy ext e s =
     (case invoke (Deploy e) (deploy_environment ext e) s of
        (None, s1) \<Rightarrow> (Return True, s1)
      | (Some (WaitMoreResourceError m), s1) \<Rightarrow> (Return False, s1)
      | (Some x, s1) \<Rightarrow> (Raise x, s1))"

text \<open>
  Lines 100 to 135: on a ready environment, the case that needs a new environment, then
  the batches, then the last batch.
\<close>

definition run_on_environment ::
  "('es, 'e, 'w) externals \<Rightarrow> 'e \<Rightarrow> nat list \<Rightarrow> nat list \<Rightarrow> ('es, 'e, 'w) state
     \<Rightarrow> (unit result \<times> ('es, 'e, 'w) state) option" where
  "run_on_environment ext e can_run_results new_env_can_run_results s =
     and_then (run_new_env ext e new_env_can_run_results s) (\<lambda>_ s1.
     and_then (run_grouped ext e can_run_results [] None s1) (\<lambda>grouped_cases s2.
       if grouped_cases \<noteq> [] then run_suite ext e grouped_cases s2
       else Some (Return (), s2)))"

text \<open>
  Lines 55 to 135, the \<^verbatim>\<open>try\<close> block; returns how it is left and the new value of
  \<^verbatim>\<open>can_run_results\<close>. \<^verbatim>\<open>list.sort\<close> is stable, as \<open>sort_key\<close> is; strings compare by code
  points.
\<close>

definition try_block ::
  "('es, 'e, 'w) externals \<Rightarrow> 'e \<Rightarrow> nat list \<Rightarrow> ('es, 'e, 'w) state
     \<Rightarrow> ((control \<times> nat list) result \<times> ('es, 'e, 'w) state) option" where
  "try_block ext e can_run_results s =
     (let crr = sort_key (\<lambda>c. suite (runtime_data (heap s c)))
                  (filter (\<lambda>c. can_run (heap s c)) can_run_results);
          new_env_can_run_results =
            filter (\<lambda>c. use_new_environment (runtime_data (heap s c))) crr
      in if crr = [] then Some (Return (Break, crr), s)
         else and_then (Some (any_needed ext e crr s)) (\<lambda>is_needed s1.
           if \<not> is_needed then Some (Return (Next, crr), s1)
           else and_then (Some (deploy ext e s1)) (\<lambda>deployed s2.
             if \<not> deployed then Some (Return (Next, crr), s2)
             else if \<not> is_ready ext e (world s2) then Some (Return (Next, crr), s2)
             else and_then (run_on_environment ext e crr new_env_can_run_results s2)
                    (\<lambda>_ s3. Some (Return (Next, crr), s3)))))"

text \<open>
  Lines 136 to 138, the \<^verbatim>\<open>finally\<close> block:
  \<^verbatim>\<open>
    if environment and environment.is_ready:
        platform.delete_environment(environment)
  \<close>
  (an environment object is true).
\<close>

definition finally_block ::
  "('es, 'e, 'w) externals \<Rightarrow> 'e \<Rightarrow> ('es, 'e, 'w) state \<Rightarrow> exn option \<times> ('es, 'e, 'w) state" where
  "finally_block ext e s =
     (if is_ready ext e (world s) then invoke (Delete e) (delete_environment ext e) s
      else (None, s))"

text \<open>
  One pass of the loop: the \<^verbatim>\<open>try\<close> block, then the \<^verbatim>\<open>finally\<close> block however the \<^verbatim>\<open>try\<close> block
  was left; an exception of the \<^verbatim>\<open>finally\<close> block takes the place of the outcome of the \<^verbatim>\<open>try\<close>
  block. When the \<^verbatim>\<open>try\<close> block never returns, the \<^verbatim>\<open>finally\<close> block is not reached.
\<close>

definition iteration ::
  "('es, 'e, 'w) externals \<Rightarrow> 'e \<Rightarrow> nat list \<Rightarrow> ('es, 'e, 'w) state
     \<Rightarrow> ((control \<times> nat list) result \<times> ('es, 'e, 'w) state) option" where
  "iteration ext e can_run_results s =
     (case try_block ext e can_run_results s of
        None \<Rightarrow> None
      | Some (r, s1) \<Rightarrow>
          (case finally_block ext e s1 of
             (Some x, s2) \<Rightarrow> Some (Raise x, s2)
           | (None, s2) \<Rightarrow> Some (r, s2)))"

text \<open>Lines 54 to 138: the loop over \<^verbatim>\<open>prepared_environments\<close>; returns \<^verbatim>\<open>can_run_results\<close>.\<close>

fun environments_loop ::
  "('es, 'e, 'w) externals \<Rightarrow> 'e list \<Rightarrow> nat list \<Rightarrow> ('es, 'e, 'w) state
     \<Rightarrow> (nat list result \<times> ('es, 'e, 'w) state) option" where
  "environments_loop ext [] can_run_results s = Some (Return can_run_results, s)"
| "environments_loop ext (e # es) can_run_results s =
     (case iteration ext e can_run_results s of
        None \<Rightarrow> None
      | Some (Raise x, s1) \<Rightarrow> Some (Raise x, s1)
      | Some (Return (Break, crr), s1) \<Rightarrow> Some (Return crr, s1)
      | Some (Return (Next, crr), s1) \<Rightarrow> environments_loop ext es crr s1)"

text \<open>
  \<^verbatim>\<open>LisaRunner._create_test_results\<close>: one new \<^verbatim>\<open>TestResult\<close> for each selected case; the
  objects take the addresses \<open>0, 1, ...\<close> of the heap, in the order of the cases.
\<close>

definition new_result :: "'es TestCaseRuntimeData \<Rightarrow> 'es TestResult" where
  "new_result x = \<lparr>runtime_data = x, status = NOTRUN, message = [], env = [], check_results = None\<rparr>"

fun create_test_results ::
  "'es TestCaseRuntimeData list \<Rightarrow> nat \<Rightarrow> (nat \<Rightarrow> 'es TestResult) \<Rightarrow> (nat \<Rightarrow> 'es TestResult)" where
  "create_test_results [] a h = h"
| "create_test_results (x # xs) a h = create_test_results xs (Suc a) (h(a := new_result x))"

text \<open>
  \<^verbatim>\<open>LisaRunner._merge_test_requirements\<close>: \<^verbatim>\<open>assert platform_type\<close>, then for each result the
  check of its platform requirement (\<open>check_platform_type\<close>, the first \<^verbatim>\<open>if\<close> of the loop body)
  and the request for an environment (\<open>request_environment\<close>, the second \<^verbatim>\<open>if\<close>).
\<close>

definition check_platform_type ::
  "('es, 'e, 'w) externals \<Rightarrow> nat \<Rightarrow> ('es, 'e, 'w) state \<Rightarrow> ('es, 'e, 'w) state" where
  "check_platform_type ext c s =
     (let test_req = requirement (runtime_data (heap s c))
      in if set_space_true (platform_type test_req)
         then (let check_result = set_check ext (the (platform_type test_req))
                                    \<lparr>is_allow_set = True, items = [type_name ext]\<rparr>
               in if \<not> result check_result
                  then set_status_at c SKIPPED (StrList (reasons check_result)) s
                  else s)
         else s)"

definition request_environment ::
  "('es, 'e, 'w) externals \<Rightarrow> nat \<Rightarrow> ('es, 'e, 'w) state
     \<Rightarrow> unit result \<times> ('es, 'e, 'w) state" where
  "request_environment ext c s =
     (if can_run (heap s c)
      then (case environment (requirement (runtime_data (heap s c))) of
              None \<Rightarrow> (Raise (AssertionError []), s)
            | Some space \<Rightarrow>
                (case (if use_new_environment (runtime_data (heap s c))
                       then from_requirement ext space (world s)
                       else get_or_create ext space (world s)) of
                   (Some x, w) \<Rightarrow> (Raise x, s\<lparr>world := w\<rparr>)
                 | (None, w) \<Rightarrow> (Return (), s\<lparr>world := w\<rparr>)))
      else (Return (), s))"

definition merge_one ::
  "('es, 'e, 'w) externals \<Rightarrow> nat \<Rightarrow> ('es, 'e, 'w) state
     \<Rightarrow> unit result \<times> ('es, 'e, 'w) state" where
  "merge_one ext c s = request_environment ext c (check_platform_type ext c s)"

fun merge_loop ::
  "('es, 'e, 'w) externals \<Rightarrow> nat list \<Rightarrow> ('es, 'e, 'w) state
     \<Rightarrow> unit result \<times> ('es, 'e, 'w) state" where
  "merge_loop ext [] s = (Return (), s)"
| "merge_loop ext (c # cs) s =
     (case merge_one ext c s of
        (Raise x, s1) \<Rightarrow> (Raise x, s1)
      | (Return _, s1) \<Rightarrow> merge_loop ext cs s1)"

definition merge_test_requirements ::
  "('es, 'e, 'w) externals \<Rightarrow> nat list \<Rightarrow> ('es, 'e, 'w) state
     \<Rightarrow> unit result \<times> ('es, 'e, 'w) state" where
  "merge_test_requirements ext test_results s =
     (if type_name ext = [] then (Raise (AssertionError []), s) else merge_loop ext test_results s)"

text \<open>
  Lines 140 to 147: the results that can still run are skipped.
  \<^verbatim>\<open>
    reasons = "no available environment"
    if case.check_results and case.check_results.reasons:
        reasons = f"{reasons}: {case.check_results.reasons}"
    case.set_status(TestStatus.SKIPPED, reasons)
  \<close>
  A list of strings is formatted as Python's \<^verbatim>\<open>repr\<close> gives it.
\<close>

definition list_repr :: "('es, 'e, 'w) externals \<Rightarrow> string list \<Rightarrow> string" where
  "list_repr ext xs = ''['' @ join '', '' (map (str_repr ext) xs) @ '']''"

definition no_environment_reasons :: "('es, 'e, 'w) externals \<Rightarrow> 'es TestResult \<Rightarrow> string" where
  "no_environment_reasons ext r =
     (case check_results r of
        None \<Rightarrow> ''no available environment''
      | Some cr \<Rightarrow>
          if reasons cr \<noteq> []
          then ''no available environment'' @ '': '' @ list_repr ext (reasons cr)
          else ''no available environment'')"

fun skip_not_run ::
  "('es, 'e, 'w) externals \<Rightarrow> nat list \<Rightarrow> ('es, 'e, 'w) state \<Rightarrow> ('es, 'e, 'w) state" where
  "skip_not_run ext [] s = s"
| "skip_not_run ext (c # cs) s =
     skip_not_run ext cs
       (if can_run (heap s c)
        then set_status_at c SKIPPED (Str (no_environment_reasons ext (heap s c))) s
        else s)"

text \<open>
  Lines 149 to 157: \<^verbatim>\<open>result_count_dict\<close>, a dictionary from status to count.
\<close>

fun count_results ::
  "(nat \<Rightarrow> 'es TestResult) \<Rightarrow> nat list \<Rightarrow> (TestStatus \<rightharpoonup> int) \<Rightarrow> (TestStatus \<rightharpoonup> int)" where
  "count_results h [] result_count_dict = result_count_dict"
| "count_results h (c # cs) result_count_dict =
     count_results h cs
       (result_count_dict(status (h c) \<mapsto>
          (case result_count_dict (status (h c)) of None \<Rightarrow> 0 | Some n \<Rightarrow> n) + 1))"

text \<open>
  The runner object: \<^verbatim>\<open>exit_code\<close> (0 from \<^verbatim>\<open>__init__\<close>) and \<^verbatim>\<open>_latest_test_results\<close>. The status
  of the action (lisa/action.py is not among the sources) is left out.
\<close>

record LisaRunner =
  exit_code :: int
  latest_test_results :: "nat list"

text \<open>
  \<^verbatim>\<open>LisaRunner.start\<close>, lines 32 to 138: from the selected cases to the end of the loop over the
  environments. The selected cases (\<^verbatim>\<open>select_testcases\<close>) are given; the predefined
  environments and the provider are in the world when the run starts. Returns
  \<^verbatim>\<open>can_run_results\<close>.
\<close>

definition schedule ::
  "('es, 'e, 'w) externals \<Rightarrow> 'es TestCaseRuntimeData list \<Rightarrow> ('es, 'e, 'w) state
     \<Rightarrow> (nat list result \<times> ('es, 'e, 'w) state) option" where
  "schedule ext selected_test_cases s =
     (let selected_test_results = [0 ..< length selected_test_cases];
          s0 = s\<lparr>heap := create_test_results selected_test_cases 0 (heap s)\<rparr>
      in and_then (Some (merge_test_requirements ext selected_test_results s0)) (\<lambda>_ s1.
         and_then (case prepare_environments ext (world s1) of
                     (r, w) \<Rightarrow> Some (r, s1\<lparr>world := w\<rparr>)) (\<lambda>prepared_environments s2.
           environments_loop ext prepared_environments selected_test_results s2)))"

text \<open>
  \<^verbatim>\<open>LisaRunner.start\<close>: the schedule, the skipping of what is left, the summary and
  \<^verbatim>\<open>self.exit_code = result_count_dict.get(TestStatus.FAILED, 0)\<close>. When an exception leaves
  the method, the runner object is as it was.
\<close>

definition LisaRunner_start ::
  "('es, 'e, 'w) externals \<Rightarrow> LisaRunner \<Rightarrow> 'es TestCaseRuntimeData list \<Rightarrow> ('es, 'e, 'w) state
     \<Rightarrow> (LisaRunner result \<times> ('es, 'e, 'w) state) option" where
  "LisaRunner_start ext self selected_test_cases s =
     and_then (schedule ext selected_test_cases s) (\<lambda>can_run_results s1.
       (let selected_test_results = [0 ..< length selected_test_cases];
            s2 = skip_not_run ext can_run_results s1;
            result_count_dict = count_results (heap s2) selected_test_results Map.empty
        in Some (Return (self\<lparr>exit_code := (case result_count_dict FAILED of
                                                None \<Rightarrow> 0 | Some n \<Rightarrow> n),
                               latest_test_results := selected_test_results\<rparr>), s2)))"

section \<open>Extension registry (lisa/util/subclasses.py)\<close>

text \<open>
  A class object: its identity, and what its class method \<^verbatim>\<open>type_name()\<close> returns; a class that
  does not override the method inherits \<^verbatim>\<open>BaseClass.type_name\<close>, which raises
  \<^verbatim>\<open>NotImplementedError\<close>.
\<close>

record py_class =
  class_id :: nat
  declared_type_name :: "string option"

definition class_type_name :: "py_class \<Rightarrow> string result" where
  "class_type_name c =
     (case declared_type_name c of None \<Rightarrow> Raise (NotImplementedError []) | Some n \<Rightarrow> Return n)"

text \<open>The warning of \<^verbatim>\<open>_initialize\<close>: the name, the new class and the class that exists.\<close>

datatype log_record = Warning string py_class py_class

text \<open>
  A \<^verbatim>\<open>Factory\<close> object: the dictionary of the \<^verbatim>\<open>UserDict\<close>, the flag of \<^verbatim>\<open>InitializableMixin\<close> and
  what was written to the log.
\<close>

record Factory =
  data :: "string \<rightharpoonup> py_class"
  is_initialized :: bool
  log :: "log_record list"

text \<open>
  \<^verbatim>\<open>Factory._initialize\<close>, over the list that \<^verbatim>\<open>self._base_type.__subclasses__()\<close> returns:
  \<^verbatim>\<open>
    for subclass_type in self._base_type.__subclasses__():
        subclass_type_name = subclass_type.type_name()
        exists_type = self.get(subclass_type_name)
        if exists_type:
            self._log.warning(...)
        else:
            self[subclass_type.type_name()] = subclass_type
  \<close>
  (a class object is true).
\<close>

fun Factory_initialize :: "py_class list \<Rightarrow> Factory \<Rightarrow> unit result \<times> Factory" where
  "Factory_initialize [] self = (Return (), self)"
| "Factory_initialize (subclass_type # rest) self =
     (case class_type_name subclass_type of
        Raise x \<Rightarrow> (Raise x, self)
      | Return subclass_type_name \<Rightarrow>
          (case data self subclass_type_name of
             Some exists_type \<Rightarrow>
               Factory_initialize rest
                 (self\<lparr>log := log self @ [Warning subclass_type_name subclass_type exists_type]\<rparr>)
           | None \<Rightarrow>
               Factory_initialize rest
                 (self\<lparr>data := (data self)(subclass_type_name \<mapsto> subclass_type)\<rparr>)))"

text \<open>
  Modelled from the spec: \<^verbatim>\<open>InitializableMixin.initialize\<close> (lisa/util/__init__.py is not among
  the sources). The registry discovers the implementations when it is first used; the mixin
  runs \<^verbatim>\<open>_initialize\<close> unless the object is already initialized. The claims proved below hold
  for either value of the flag.
\<close>

definition initialize :: "py_class list \<Rightarrow> Factory \<Rightarrow> unit result \<times> Factory" where
  "initialize subclasses self =
     (if is_initialized self then (Return (), self)
      else (case Factory_initialize subclasses self of
              (Raise x, f) \<Rightarrow> (Raise x, f)
            | (Return _, f) \<Rightarrow> (Return (), f\<lparr>is_initialized := True\<rparr>)))"

text \<open>An instance of a class, as \<^verbatim>\<open>sub_type()\<close> builds it.\<close>

datatype py_object = Instance py_class

text \<open>
  \<^verbatim>\<open>Factory.create_by_type_name\<close>:
  \<^verbatim>\<open>
    self.initialize()
    sub_type = self.get(type_name)
    if sub_type is None:
        raise LisaException(f"cannot find subclass '{type_name}'")
    return cast(T_BASECLASS, sub_type())
  \<close>
\<close>

definition create_by_type_name ::
  "py_class list \<Rightarrow> Factory \<Rightarrow> string \<Rightarrow> py_object result \<times> Factory" where
  "create_by_type_name subclasses self n =
     (case initialize subclasses self of
        (Raise x, f) \<Rightarrow> (Raise x, f)
      | (Return _, f) \<Rightarrow>
          (case data f n of
             None \<Rightarrow>
               (Raise (LisaException (''cannot find subclass '' @ [CHR 0x27] @ n @ [CHR 0x27])), f)
           | Some sub_type \<Rightarrow> (Return (Instance sub_type), f)))"

section \<open>Notions used in the statements\<close>

text \<open>A terminal status: any status but \<open>NOTRUN\<close> and \<open>RUNNING\<close>.\<close>

definition settled :: "TestStatus \<Rightarrow> bool" where
  "settled st \<longleftrightarrow> st = PASSED \<or> st = FAILED \<or> st = SKIPPED \<or> st = ATTEMPTED"

text \<open>What is known of a result, or of the trace, once a call has returned.\<close>

definition status_after :: "('es, 'e, 'w) state option \<Rightarrow> nat \<Rightarrow> TestStatus option" where
  "status_after r c = map_option (\<lambda>s. status (heap s c)) r"

definition calls_after :: "('es, 'e, 'w) state option \<Rightarrow> 'e event \<Rightarrow> nat option" where
  "calls_after r ev = map_option (\<lambda>s. count_list (trace s) ev) r"

text \<open>The number of calls of \<^verbatim>\<open>delete_environment\<close> in the trace that a pass of the loop leaves.\<close>

definition deletions_after ::
  "('a result \<times> ('es, 'e, 'w) state) option \<Rightarrow> 'e \<Rightarrow> nat option" where
  "deletions_after r e = map_option (\<lambda>p. count_list (trace (snd p)) (Delete e)) r"

text \<open>
  How a result may change while the runner works: its runtime data stay, a status other
  than \<open>NOTRUN\<close> does not become \<open>NOTRUN\<close> again, a terminal status stays terminal, and a
  result that is \<open>NOTRUN\<close> with an empty message either stays so or gets a terminal status.
\<close>

definition fresh :: "'es TestResult \<Rightarrow> bool" where
  "fresh r \<longleftrightarrow> status r = NOTRUN \<and> message r = []"

definition advances :: "'es TestResult \<Rightarrow> 'es TestResult \<Rightarrow> bool" where
  "advances r r1 \<longleftrightarrow>
     runtime_data r1 = runtime_data r \<and>
     (status r \<noteq> NOTRUN \<longrightarrow> status r1 \<noteq> NOTRUN) \<and>
     (settled (status r) \<longrightarrow> settled (status r1)) \<and>
     (fresh r \<longrightarrow> fresh r1 \<or> settled (status r1))"

definition heap_advances :: "(nat \<Rightarrow> 'es TestResult) \<Rightarrow> (nat \<Rightarrow> 'es TestResult) \<Rightarrow> bool" where
  "heap_advances h h1 \<longleftrightarrow> (\<forall>i. advances (h i) (h1 i))"

text \<open>A step of the runner that does not deprovision: no \<open>Delete\<close> among its calls.\<close>

definition quiet :: "('es, 'e, 'w) state \<Rightarrow> ('es, 'e, 'w) state \<Rightarrow> bool" where
  "quiet s s1 \<longleftrightarrow>
     heap_advances (heap s) (heap s1) \<and>
     (\<exists>evs. trace s1 = trace s @ evs \<and> (\<forall>e. Delete e \<notin> set evs))"

text \<open>
  A workload whose failures are ignored and whose test method, in the class of its own
  suite, raises on every call; its retry setting is not negative.
\<close>

definition always_ignored :: "('es, 'e, 'w) externals \<Rightarrow> 'es TestCaseRuntimeData \<Rightarrow> bool" where
  "always_ignored ext rd \<longleftrightarrow>
     ignore_failure rd \<and> 0 \<le> retry rd \<and>
     (\<forall>e w. fst (test_method (suite_class ext (suite rd)) (name rd) e w) \<noteq> None)"

text \<open>The result at address \<open>t\<close> belongs to the workload \<open>rd\<close> and is not \<open>FAILED\<close> or \<open>PASSED\<close>.\<close>

definition unfailed :: "nat \<Rightarrow> 'es TestCaseRuntimeData \<Rightarrow> ('es, 'e, 'w) state \<Rightarrow> bool" where
  "unfailed t rd s \<longleftrightarrow>
     runtime_data (heap s t) = rd \<and>
     (status (heap s t) = NOTRUN \<or> status (heap s t) = SKIPPED \<or> status (heap s t) = ATTEMPTED)"

section \<open>Example inputs\<close>

definition failing_hook :: "nat hook" where
  "failing_hook w = (Some (Exception ''boom''), Suc w)"

definition passing_hook :: "nat hook" where
  "passing_hook w = (None, Suc w)"

definition example_requirement :: "unit TestCaseRequirement" where
  "example_requirement = \<lparr>environment = Some (), platform_type = None, os_type = None\<rparr>"

definition example_case :: "string \<Rightarrow> int \<Rightarrow> bool \<Rightarrow> unit TestCaseRuntimeData" where
  "example_case n k ign =
     \<lparr>name = n, full_name = ''Suite.'' @ n, suite = ''Suite'', requirement = example_requirement,
      select_action = [], times = 1, retry = k, use_new_environment = False,
      ignore_failure = ign, environment_name = []\<rparr>"

definition cleanup_fails :: "(unit, nat) test_class" where
  "cleanup_fails =
     \<lparr>before_suite = (\<lambda>e. passing_hook), after_suite = (\<lambda>e. passing_hook),
      before_case = (\<lambda>e. passing_hook), after_case = (\<lambda>e. failing_hook),
      test_method = (\<lambda>n e. passing_hook), should_stop = (\<lambda>w. False),
      new_suite = (\<lambda>e w. w)\<rparr>"

definition example_state :: "(unit, unit, nat) state" where
  "example_state =
     \<lparr>heap = (\<lambda>i. (new_result (example_case ''verify'' 1 False))\<lparr>status := PASSED\<rparr>),
      world = 0, trace = []\<rparr>"

definition mock_first :: py_class where
  "mock_first = \<lparr>class_id = 0, declared_type_name = Some ''mock''\<rparr>"

definition mock_second :: py_class where
  "mock_second = \<lparr>class_id = 1, declared_type_name = Some ''mock''\<rparr>"

definition new_factory :: Factory where
  "new_factory = \<lparr>data = Map.empty, is_initialized = False, log = []\<rparr>"




text \<open>A suite of which only the test methods fail.\<close>

definition failing_tests :: "(unit, nat) test_class" where
  "failing_tests =
     \<lparr>before_suite = (\<lambda>e. passing_hook), after_suite = (\<lambda>e. passing_hook),
      before_case = (\<lambda>e. passing_hook), after_case = (\<lambda>e. passing_hook),
      test_method = (\<lambda>n e. failing_hook), should_stop = (\<lambda>w. False),
      new_suite = (\<lambda>e w. w)\<rparr>"

definition fresh_state :: "int \<Rightarrow> bool \<Rightarrow> (unit, unit, nat) state" where
  "fresh_state k ign =
     \<lparr>heap = (\<lambda>i. new_result (example_case ''verify'' k ign)), world = 0, trace = []\<rparr>"

text \<open>
  A provider with one predefined environment. \<open>ready\<close> is what \<^verbatim>\<open>environment.is_ready\<close> gives,
  \<open>matches\<close> whether the environment meets the requirement of the cases. The cases of the
  suite pass, except the case \<^verbatim>\<open>bad\<close>, which raises.
\<close>

definition example_suite :: "(unit, nat) test_class" where
  "example_suite =
     \<lparr>before_suite = (\<lambda>e. passing_hook), after_suite = (\<lambda>e. passing_hook),
      before_case = (\<lambda>e. passing_hook), after_case = (\<lambda>e. passing_hook),
      test_method = (\<lambda>n e. if n = ''bad'' then failing_hook else passing_hook),
      should_stop = (\<lambda>w. False), new_suite = (\<lambda>e w. w)\<rparr>"

definition example_externals :: "bool \<Rightarrow> bool \<Rightarrow> (unit, unit, nat) externals" where
  "example_externals ready matches =
     \<lparr>type_name = ''mock'',
      prepare_environments = (\<lambda>w. (Return [()], w)),
      deploy_environment = (\<lambda>e w. (None, w)),
      delete_environment = (\<lambda>e w. (None, w)),
      from_requirement = (\<lambda>space w. (None, w)),
      get_or_create = (\<lambda>space w. (None, w)),
      is_ready = (\<lambda>e w. ready),
      env_name = (\<lambda>e w. ''env''),
      nodes_os_mro = (\<lambda>e w. []),
      environment_check = (\<lambda>space e w.
        \<lparr>result = matches, reasons = (if matches then [] else [''no match''])\<rparr>),
      set_check = (\<lambda>a b. \<lparr>result = True, reasons = []\<rparr>),
      merge = (\<lambda>a b l. \<lparr>result = (result a \<and> result b), reasons = reasons a @ reasons b\<rparr>),
      suite_class = (\<lambda>n. example_suite),
      str_repr = (\<lambda>x. [CHR 0x27] @ x @ [CHR 0x27])\<rparr>"

definition new_runner :: LisaRunner where
  "new_runner = \<lparr>exit_code = 0, latest_test_results = []\<rparr>"

definition empty_state :: "(unit, unit, nat) state" where
  "empty_state = \<lparr>heap = (\<lambda>i. new_result (example_case [] 0 False)), world = 0, trace = []\<rparr>"

definition good_and_bad :: "unit TestCaseRuntimeData list" where
  "good_and_bad = [example_case ''good'' 0 False, example_case ''bad'' 0 False]"

definition ignored_bad :: "unit TestCaseRuntimeData list" where
  "ignored_bad = [example_case ''bad'' 1 True, example_case ''bad'' 0 False]"

section \<open>Retrying: what a call leaves behind\<close>

lemma retry_call_zero: "retry_call f 0 s = Some (None, s)"
  by (subst retry_call.simps) simp

lemma retry_call_step:
  "tries \<noteq> 0 \<Longrightarrow> retry_call f tries s =
     (case f s of (None, s1) \<Rightarrow> Some (None, s1)
      | (Some x, s1) \<Rightarrow> if tries = 1 then Some (Some x, s1) else retry_call f (tries - 1) s1)"
  by (subst retry_call.simps) (simp split: prod.splits option.splits)

lemma invoke_heap: "invoke ev h s = (r, s1) \<Longrightarrow> heap s1 = heap s \<and> trace s1 = trace s @ [ev]"
  by (auto simp: invoke_def split: prod.splits)

lemma invoke_result: "fst (invoke ev h s) = fst (h (world s))"
  by (simp add: invoke_def split: prod.splits)

text \<open>partial correctness, any number of tries\<close>
lemma retry_call_frame_aux:
  "retry_call f tries s = Some y \<Longrightarrow>
     (\<forall>ev h. f = invoke ev h \<longrightarrow>
        heap (snd y) = heap s \<and> (\<exists>k. trace (snd y) = trace s @ replicate k ev))"
proof (induction rule: retry_call.raw_induct[rotated 1, consumes 1])
  case (1 rc f tries s y)
  show ?case
  proof (intro allI impI)
    fix ev h assume f: "f = invoke ev h"
    show "heap (snd y) = heap s \<and> (\<exists>k. trace (snd y) = trace s @ replicate k ev)"
    proof (cases "tries = 0")
      case True
      with 1(2) have "y = (None, s)" by simp
      then show ?thesis by simp
    next
      case False
      obtain r s1 where fs: "f s = (r, s1)" by (cases "f s")
      from fs f have h1: "heap s1 = heap s" "trace s1 = trace s @ [ev]"
        using invoke_heap by metis+
      show ?thesis
      proof (cases r)
        case None
        with 1(2) False fs have "y = (None, s1)" by simp
        with h1 show ?thesis by (auto intro: exI[of _ 1])
      next
        case (Some x)
        show ?thesis
        proof (cases "tries - 1 = 0")
          case True
          with 1(2) False fs Some have "y = (Some x, s1)" by simp
          with h1 show ?thesis by (auto intro: exI[of _ 1])
        next
          case F2: False
          with 1(2) False fs Some have "rc f (tries - 1) s1 = Some y" by simp
          from 1(1)[OF this] f obtain k where
            "heap (snd y) = heap s1" "trace (snd y) = trace s1 @ replicate k ev" by blast
          with h1 show ?thesis by (auto intro: exI[of _ "Suc k"] simp: replicate_append_same)
        qed
      qed
    qed
  qed
qed

lemma retry_call_frame:
  "retry_call (invoke ev h) tries s = Some (r, s1) \<Longrightarrow>
     heap s1 = heap s \<and> (\<exists>k. trace s1 = trace s @ replicate k ev)"
  using retry_call_frame_aux[of "invoke ev h" tries s "(r, s1)"] by auto

text \<open>total correctness for a non-negative number of tries\<close>
lemma retry_call_total_nat:
  "\<exists>k r s1. retry_call (invoke ev h) (int n) s = Some (r, s1) \<and> heap s1 = heap s \<and>
      trace s1 = trace s @ replicate k ev \<and> k \<le> n \<and> (0 < n \<longrightarrow> 0 < k) \<and>
      (r \<noteq> None \<longrightarrow> k = n) \<and>
      ((\<forall>w. fst (h w) \<noteq> None) \<longrightarrow> k = n \<and> (0 < n \<longrightarrow> r \<noteq> None)) \<and>
      ((\<forall>w. fst (h w) = None) \<longrightarrow> r = None)"
proof (induction n arbitrary: s)
  case 0
  show ?case by (simp add: retry_call_zero)
next
  case (Suc n)
  obtain r s1 where fs: "invoke ev h s = (r, s1)" by (cases "invoke ev h s")
  then have h1: "heap s1 = heap s" "trace s1 = trace s @ [ev]" using invoke_heap by metis+
  have rr: "r = fst (h (world s))" using fs invoke_result[of ev h s] by simp
  show ?case
  proof (cases r)
    case None
    then have "retry_call (invoke ev h) (int (Suc n)) s = Some (None, s1)"
      using fs by (subst retry_call_step) auto
    moreover have "\<not> (\<forall>w. fst (h w) \<noteq> None)" using None rr by metis
    ultimately show ?thesis using h1
      by (intro exI[of _ 1] exI[of _ None] exI[of _ s1]) auto
  next
    case (Some x)
    show ?thesis
    proof (cases n)
      case 0
      then have "retry_call (invoke ev h) (int (Suc n)) s = Some (Some x, s1)"
        using fs Some by (subst retry_call_step) auto
      moreover have "\<not> (\<forall>w. fst (h w) = None)" using Some rr by (metis option.distinct(1))
      ultimately show ?thesis using h1 0
        by (intro exI[of _ 1] exI[of _ "Some x"] exI[of _ s1]) auto
    next
      case (Suc m)
      then have eq: "retry_call (invoke ev h) (int (Suc n)) s = retry_call (invoke ev h) (int n) s1"
        using fs Some by (subst retry_call_step) auto
      from Suc.IH[of s1] obtain k r2 s2 where
        k: "retry_call (invoke ev h) (int n) s1 = Some (r2, s2)" "heap s2 = heap s1"
           "trace s2 = trace s1 @ replicate k ev" "k \<le> n" "0 < n \<longrightarrow> 0 < k"
           "r2 \<noteq> None \<longrightarrow> k = n"
           "(\<forall>w. fst (h w) \<noteq> None) \<longrightarrow> k = n \<and> (0 < n \<longrightarrow> r2 \<noteq> None)"
           "(\<forall>w. fst (h w) = None) \<longrightarrow> r2 = None"
        by blast
      show ?thesis
        using eq k h1 Suc
        by (intro exI[of _ "Suc k"] exI[of _ r2] exI[of _ s2]) (auto simp: replicate_append_same)
    qed
  qed
qed

section \<open>Claims about the execution engine\<close>

text \<open>
  C6. An exception of \<^verbatim>\<open>after_case\<close>, also one that uses up the retry budget, never changes
  the status of the workload result: whenever the \<^verbatim>\<open>after_case\<close> part of the loop returns, the
  heap of results (and so every status) is what it was before; and when \<^verbatim>\<open>after_case\<close> raises
  on every call and the retry setting is not negative, the part does return, after
  \<open>retry + 1\<close> calls, with the status as before.
\<close>

theorem after_case_keeps_status:
  "(\<forall>s1. after_case_part cls e c s = Some s1 \<longrightarrow> heap s1 = heap s) \<and>
   (0 \<le> retry (runtime_data (heap s c)) \<and> (\<forall>w. fst (after_case cls e w) \<noteq> None) \<longrightarrow>
      (\<exists>s1. after_case_part cls e c s = Some s1 \<and> status (heap s1 c) = status (heap s c) \<and>
         trace s1 = trace s @ replicate (nat (retry (runtime_data (heap s c)) + 1)) (AfterCase c)))"
proof (intro conjI allI impI)
  fix s1 assume "after_case_part cls e c s = Some s1"
  then obtain r where "retry_call (invoke (AfterCase c) (after_case cls e))
      (retry (runtime_data (heap s c)) + 1) s = Some (r, s1)"
    by (auto simp: after_case_part_def split: option.splits)
  then show "heap s1 = heap s" using retry_call_frame by blast
next
  assume a: "0 \<le> retry (runtime_data (heap s c)) \<and> (\<forall>w. fst (after_case cls e w) \<noteq> None)"
  define n where "n = nat (retry (runtime_data (heap s c)) + 1)"
  have n: "int n = retry (runtime_data (heap s c)) + 1" using a by (simp add: n_def)
  from retry_call_total_nat[of "AfterCase c" "after_case cls e" n s] a obtain k r s1 where
    k: "retry_call (invoke (AfterCase c) (after_case cls e)) (int n) s = Some (r, s1)"
       "heap s1 = heap s" "trace s1 = trace s @ replicate k (AfterCase c)" "k = n"
    by blast
  then have "after_case_part cls e c s = Some s1"
    by (simp add: after_case_part_def n)
  with k show "\<exists>s1. after_case_part cls e c s = Some s1 \<and> status (heap s1 c) = status (heap s c) \<and>
         trace s1 = trace s @ replicate (nat (retry (runtime_data (heap s c)) + 1)) (AfterCase c)"
    by (auto simp: n_def)
qed

theorem after_case_keeps_status_witness:
  "\<exists>s1. after_case_part cleanup_fails () 0 example_state = Some s1 \<and>
      status (heap s1 0) = PASSED \<and> trace s1 = [AfterCase 0, AfterCase 0]"
  using after_case_keeps_status [of cleanup_fails "()" 0 example_state]
  by (simp add: cleanup_fails_def example_state_def new_result_def example_case_def
      failing_hook_def numeral_2_eq_2)

section \<open>Claims about the extension registry\<close>

lemma initialize_keeps:
  "Factory_initialize subs f = (r, f1) \<Longrightarrow> data f n = Some c \<Longrightarrow> data f1 n = Some c"
proof (induction subs arbitrary: f)
  case Nil
  then show ?case by simp
next
  case (Cons a subs)
  show ?case
  proof (cases "declared_type_name a")
    case None
    with Cons.prems show ?thesis by (simp add: class_type_name_def)
  next
    case (Some m)
    show ?thesis
    proof (cases "data f m")
      case None
      with Some Cons.prems have
        "Factory_initialize subs (f\<lparr>data := (data f)(m \<mapsto> a)\<rparr>) = (r, f1)"
        by (simp add: class_type_name_def)
      moreover have "data (f\<lparr>data := (data f)(m \<mapsto> a)\<rparr>) n = Some c"
        using None Cons.prems(2) by auto
      ultimately show ?thesis by (rule Cons.IH)
    next
      case (Some old)
      with \<open>declared_type_name a = Some m\<close> Cons.prems have
        "Factory_initialize subs (f\<lparr>log := log f @ [Warning m a old]\<rparr>) = (r, f1)"
        by (simp add: class_type_name_def)
      moreover have "data (f\<lparr>log := log f @ [Warning m a old]\<rparr>) n = Some c"
        using Cons.prems(2) by simp
      ultimately show ?thesis by (rule Cons.IH)
    qed
  qed
qed

lemma initialize_log_mono:
  "Factory_initialize subs f = (r, f1) \<Longrightarrow> set (log f) \<subseteq> set (log f1)"
proof (induction subs arbitrary: f)
  case Nil
  then show ?case by simp
next
  case (Cons a subs)
  show ?case
  proof (cases "declared_type_name a")
    case None
    with Cons.prems show ?thesis by (simp add: class_type_name_def)
  next
    case (Some m)
    show ?thesis
    proof (cases "data f m")
      case None
      with Some Cons.prems have
        "Factory_initialize subs (f\<lparr>data := (data f)(m \<mapsto> a)\<rparr>) = (r, f1)"
        by (simp add: class_type_name_def)
      from Cons.IH[OF this] show ?thesis by simp
    next
      case (Some old)
      with \<open>declared_type_name a = Some m\<close> Cons.prems have
        "Factory_initialize subs (f\<lparr>log := log f @ [Warning m a old]\<rparr>) = (r, f1)"
        by (simp add: class_type_name_def)
      from Cons.IH[OF this] show ?thesis by auto
    qed
  qed
qed

lemma initialize_total:
  "\<forall>c \<in> set subs. declared_type_name c \<noteq> None \<Longrightarrow>
     \<exists>f1. Factory_initialize subs f = (Return (), f1) \<and> is_initialized f1 = is_initialized f \<and>
       (\<forall>n. data f n = None \<longrightarrow>
            data f1 n = find (\<lambda>c. declared_type_name c = Some n) subs)"
proof (induction subs arbitrary: f)
  case Nil
  then show ?case by simp
next
  case (Cons a subs)
  then obtain m where m: "declared_type_name a = Some m" by auto
  from Cons.prems have rest: "\<forall>c \<in> set subs. declared_type_name c \<noteq> None" by simp
  show ?case
  proof (cases "data f m")
    case None
    let ?g = "f\<lparr>data := (data f)(m \<mapsto> a)\<rparr>"
    from Cons.IH[OF rest, of ?g] obtain f1 where
      f1: "Factory_initialize subs ?g = (Return (), f1)" "is_initialized f1 = is_initialized ?g"
          "\<forall>n. data ?g n = None \<longrightarrow> data f1 n = find (\<lambda>c. declared_type_name c = Some n) subs"
      by blast
    have eq: "Factory_initialize (a # subs) f = (Return (), f1)"
      using m None f1(1) by (simp add: class_type_name_def)
    have "data f1 m = Some a"
      using initialize_keeps[OF f1(1), of m a] by simp
    then have "\<forall>n. data f n = None \<longrightarrow>
        data f1 n = find (\<lambda>c. declared_type_name c = Some n) (a # subs)"
      using f1(3) m by auto
    with eq f1(2) show ?thesis by simp
  next
    case (Some old)
    let ?g = "f\<lparr>log := log f @ [Warning m a old]\<rparr>"
    from Cons.IH[OF rest, of ?g] obtain f1 where
      f1: "Factory_initialize subs ?g = (Return (), f1)" "is_initialized f1 = is_initialized ?g"
          "\<forall>n. data ?g n = None \<longrightarrow> data f1 n = find (\<lambda>c. declared_type_name c = Some n) subs"
      by blast
    have eq: "Factory_initialize (a # subs) f = (Return (), f1)"
      using m Some f1(1) by (simp add: class_type_name_def)
    have "\<forall>n. data f n = None \<longrightarrow>
        data f1 n = find (\<lambda>c. declared_type_name c = Some n) (a # subs)"
      using f1(3) m Some by auto
    with eq f1(2) show ?thesis by simp
  qed
qed

lemma initialize_append:
  "Factory_initialize (xs @ ys) f =
     (case Factory_initialize xs f of
        (Raise x, g) \<Rightarrow> (Raise x, g)
      | (Return _, g) \<Rightarrow> Factory_initialize ys g)"
  by (induction xs arbitrary: f) (auto simp: class_type_name_def split: option.splits result.splits)

lemma initialize_warns:
  assumes run: "Factory_initialize (xs @ c # ys) f = (Return (), f1)"
    and c: "declared_type_name c = Some n"
    and dup: "data f n \<noteq> None \<or> (\<exists>d \<in> set xs. declared_type_name d = Some n)"
    and decl: "\<forall>d \<in> set xs. declared_type_name d \<noteq> None"
  shows "\<exists>old. data f1 n = Some old \<and> Warning n c old \<in> set (log f1)"
proof -
  from initialize_total[OF decl, of f] obtain g where
    g: "Factory_initialize xs f = (Return (), g)"
       "\<forall>n. data f n = None \<longrightarrow> data g n = find (\<lambda>c. declared_type_name c = Some n) xs"
    by blast
  have "data g n \<noteq> None"
  proof (cases "data f n")
    case None
    with dup obtain d where "d \<in> set xs" "declared_type_name d = Some n" by auto
    then have "find (\<lambda>c. declared_type_name c = Some n) xs \<noteq> None"
      by (auto simp: find_None_iff)
    with g(2) None show ?thesis by simp
  next
    case (Some a)
    then show ?thesis using initialize_keeps[OF g(1)] by auto
  qed
  then obtain old where old: "data g n = Some old" by auto
  let ?h = "g\<lparr>log := log g @ [Warning n c old]\<rparr>"
  from run g(1) have "Factory_initialize (c # ys) g = (Return (), f1)"
    by (simp add: initialize_append)
  with c old have rest: "Factory_initialize ys ?h = (Return (), f1)"
    by (simp add: class_type_name_def)
  have "data f1 n = Some old" using initialize_keeps[OF rest, of n old] old by simp
  moreover have "Warning n c old \<in> set (log f1)" using initialize_log_mono[OF rest] by auto
  ultimately show ?thesis by blast
qed

lemma create_registered:
  assumes "data f n = Some c" and "\<forall>d \<in> set again. declared_type_name d \<noteq> None"
  shows "\<exists>f2. create_by_type_name again f n = (Return (Instance c), f2) \<and> data f2 n = Some c"
proof (cases "is_initialized f")
  case True
  with assms(1) show ?thesis by (simp add: create_by_type_name_def initialize_def)
next
  case False
  from initialize_total[OF assms(2), of f] obtain f1 where
    f1: "Factory_initialize again f = (Return (), f1)" by blast
  have "data f1 n = Some c" using initialize_keeps[OF f1 assms(1)] .
  with f1 False show ?thesis by (simp add: create_by_type_name_def initialize_def)
qed

text \<open>
  C9. Registering a subclass under a type name that is already registered does not replace
  the stored class and does not raise: when every subclass declares a type name,
  \<^verbatim>\<open>_initialize\<close> returns normally, every name registered before keeps its class, a name
  registered by this call gets the first subclass of the list that declares it, and each
  later subclass declaring a registered name leaves a warning in the log. Whatever the
  state of the initialization flag and however often the factory is initialized again,
  \<^verbatim>\<open>create_by_type_name\<close> returns an instance of the class first registered under the name.
\<close>

theorem first_registration_kept:
  assumes decl: "\<forall>c \<in> set subclasses. declared_type_name c \<noteq> None"
  shows "\<exists>f1. Factory_initialize subclasses self = (Return (), f1) \<and>
           (\<forall>n c. data self n = Some c \<longrightarrow> data f1 n = Some c) \<and>
           (\<forall>n. data self n = None \<longrightarrow>
                data f1 n = find (\<lambda>c. declared_type_name c = Some n) subclasses) \<and>
           (\<forall>xs c ys n. subclasses = xs @ c # ys \<and> declared_type_name c = Some n \<and>
                (data self n \<noteq> None \<or> (\<exists>d \<in> set xs. declared_type_name d = Some n)) \<longrightarrow>
                (\<exists>old. data f1 n = Some old \<and> Warning n c old \<in> set (log f1))) \<and>
           (\<forall>n c again b. data f1 n = Some c \<and> (\<forall>d \<in> set again. declared_type_name d \<noteq> None) \<longrightarrow>
                (\<exists>f2. create_by_type_name again (f1\<lparr>is_initialized := b\<rparr>) n
                         = (Return (Instance c), f2) \<and> data f2 n = Some c))"
proof -
  from initialize_total[OF decl, of self] obtain f1 where
    f1: "Factory_initialize subclasses self = (Return (), f1)"
        "\<forall>n. data self n = None \<longrightarrow>
            data f1 n = find (\<lambda>c. declared_type_name c = Some n) subclasses"
    by blast
  have keep: "\<forall>n c. data self n = Some c \<longrightarrow> data f1 n = Some c"
    using initialize_keeps[OF f1(1)] by blast
  have warn: "\<forall>xs c ys n. subclasses = xs @ c # ys \<and> declared_type_name c = Some n \<and>
                (data self n \<noteq> None \<or> (\<exists>d \<in> set xs. declared_type_name d = Some n)) \<longrightarrow>
                (\<exists>old. data f1 n = Some old \<and> Warning n c old \<in> set (log f1))"
  proof (intro allI impI)
    fix xs c ys n
    assume a: "subclasses = xs @ c # ys \<and> declared_type_name c = Some n \<and>
                (data self n \<noteq> None \<or> (\<exists>d \<in> set xs. declared_type_name d = Some n))"
    then have run: "Factory_initialize (xs @ c # ys) self = (Return (), f1)" using f1(1) by simp
    have dx: "\<forall>d \<in> set xs. declared_type_name d \<noteq> None" using decl a by auto
    show "\<exists>old. data f1 n = Some old \<and> Warning n c old \<in> set (log f1)"
      using initialize_warns[OF run _ _ dx, of n] a by blast
  qed
  have again: "\<forall>n c again b. data f1 n = Some c \<and> (\<forall>d \<in> set again. declared_type_name d \<noteq> None) \<longrightarrow>
                (\<exists>f2. create_by_type_name again (f1\<lparr>is_initialized := b\<rparr>) n
                         = (Return (Instance c), f2) \<and> data f2 n = Some c)"
  proof (intro allI impI)
    fix n c b and again :: "py_class list"
    assume a: "data f1 n = Some c \<and> (\<forall>d \<in> set again. declared_type_name d \<noteq> None)"
    then have "data (f1\<lparr>is_initialized := b\<rparr>) n = Some c" by simp
    from create_registered[OF this] a
    show "\<exists>f2. create_by_type_name again (f1\<lparr>is_initialized := b\<rparr>) n
                         = (Return (Instance c), f2) \<and> data f2 n = Some c" by blast
  qed
  from f1 keep warn again show ?thesis by blast
qed

theorem first_registration_kept_witness:
  "\<exists>f1. Factory_initialize [mock_first, mock_second] new_factory = (Return (), f1) \<and>
      data f1 ''mock'' = Some mock_first \<and>
      log f1 = [Warning ''mock'' mock_second mock_first] \<and>
      fst (create_by_type_name [mock_first, mock_second] new_factory ''mock'')
        = Return (Instance mock_first) \<and>
      fst (create_by_type_name [mock_second, mock_first] f1 ''mock'')
        = Return (Instance mock_first)"
  using first_registration_kept [of "[mock_first, mock_second]" new_factory]
  by (simp add: mock_first_def mock_second_def new_factory_def class_type_name_def
      create_by_type_name_def initialize_def)

section \<open>Status transitions\<close>

lemma set_message_fields [simp]:
  "status (set_message m r) = status r"
  "runtime_data (set_message m r) = runtime_data r"
  "env (set_message m r) = env r"
  "check_results (set_message m r) = check_results r"
  by (simp_all add: set_message_def)

lemma set_message_Str:
  "message (set_message (Str m) r) =
     (if m = [] then message r else if message r = [] then m else message r @ newline @ m)"
  by (simp add: set_message_def)

lemma set_status_fields [simp]:
  "status (fst (set_status st m r)) = st"
  "runtime_data (fst (set_status st m r)) = runtime_data r"
  "env (fst (set_status st m r)) = env r"
  "check_results (fst (set_status st m r)) = check_results r"
  "message (fst (set_status st m r)) = message (set_message m r)"
  by (simp_all add: set_status_def Let_def)

lemma set_status_notes:
  "snd (set_status st m r) =
     (if status r \<noteq> st then [result_message (fst (set_status st m r))] else [])"
  by (simp add: set_status_def Let_def)

lemma set_status_at_heap:
  "heap (set_status_at c st m s) = (heap s)(c := fst (set_status st m (heap s c)))"
  by (simp add: set_status_at_def split: prod.splits)

lemma set_status_at_trace:
  "trace (set_status_at c st m s) = trace s @ map Notify (snd (set_status st m (heap s c)))"
  by (simp add: set_status_at_def split: prod.splits)

lemma set_status_at_world [simp]:
  "world (set_status_at c st m s) = world s"
  by (simp add: set_status_at_def split: prod.splits)

section \<open>Counting calls in a trace\<close>

lemma count_list_replicate_same [simp]: "count_list (replicate k x) x = k"
  by (induction k) auto

lemma count_list_replicate_other [simp]: "x \<noteq> y \<Longrightarrow> count_list (replicate k x) y = 0"
  by (induction k) auto

lemma count_list_Notify [simp]:
  "count_list (map Notify ns) BeforeSuite = 0"
  "count_list (map Notify ns) AfterSuite = 0"
  "count_list (map Notify ns) (BeforeCase c) = 0"
  "count_list (map Notify ns) (TestMethod c) = 0"
  "count_list (map Notify ns) (AfterCase c) = 0"
  "count_list (map Notify ns) (Deploy e) = 0"
  "count_list (map Notify ns) (Delete e) = 0"
  by (induction ns) auto

lemma retry_call_total:
  assumes "0 \<le> tries"
  shows "\<exists>k r s1. retry_call (invoke ev h) tries s = Some (r, s1) \<and> heap s1 = heap s \<and>
      trace s1 = trace s @ replicate k ev \<and> k \<le> nat tries \<and> (0 < tries \<longrightarrow> 0 < k) \<and>
      (r \<noteq> None \<longrightarrow> k = nat tries) \<and>
      ((\<forall>w. fst (h w) \<noteq> None) \<longrightarrow> k = nat tries \<and> (0 < tries \<longrightarrow> r \<noteq> None)) \<and>
      ((\<forall>w. fst (h w) = None) \<longrightarrow> r = None)"
proof -
  have "int (nat tries) = tries" using assms by simp
  with retry_call_total_nat[of ev h "nat tries" s] show ?thesis
    by (metis (no_types, lifting) zero_less_nat_eq)
qed

section \<open>The parts of one pass of the loop of the suite runner\<close>



lemma test_method_part_total:
  assumes "0 \<le> retry (runtime_data (heap s c))"
  shows "\<exists>k r s0 s1.
      retry_call (invoke (TestMethod c) (test_method cls (name (runtime_data (heap s c))) e))
        (retry (runtime_data (heap s c)) + 1) s = Some (r, s0) \<and>
      test_method_part cls e True c s = Some s1 \<and>
      heap s0 = heap s \<and> trace s0 = trace s @ replicate k (TestMethod c) \<and>
      0 < k \<and> k \<le> nat (retry (runtime_data (heap s c)) + 1) \<and>
      (r \<noteq> None \<longrightarrow> k = nat (retry (runtime_data (heap s c)) + 1)) \<and>
      ((\<forall>w. fst (test_method cls (name (runtime_data (heap s c))) e w) \<noteq> None) \<longrightarrow> r \<noteq> None) \<and>
      (case r of None \<Rightarrow> s1 = set_status_at c PASSED (Str []) s0
       | Some x \<Rightarrow>
           s1 = (if ignore_failure (runtime_data (heap s c))
                 then set_status_at c ATTEMPTED (Str (str_of x)) s0
                 else set_status_at c FAILED (Str (''failed: '' @ str_of x)) s0))"
proof -
  let ?n = "retry (runtime_data (heap s c)) + 1"
  let ?h = "test_method cls (name (runtime_data (heap s c))) e"
  have pos: "0 \<le> ?n" "0 < ?n" using assms by auto
  from retry_call_total[OF pos(1), of "TestMethod c" ?h s] pos(2)
  obtain k r s0 where
    k: "retry_call (invoke (TestMethod c) ?h) ?n s = Some (r, s0)"
       "heap s0 = heap s" "trace s0 = trace s @ replicate k (TestMethod c)"
       "k \<le> nat ?n" "0 < k" "r \<noteq> None \<longrightarrow> k = nat ?n"
       "(\<forall>w. fst (?h w) \<noteq> None) \<longrightarrow> r \<noteq> None"
    by blast
  show ?thesis
  proof (cases r)
    case None
    with k have "test_method_part cls e True c s = Some (set_status_at c PASSED (Str []) s0)"
      by (simp add: test_method_part_def)
    with k None show ?thesis by auto
  next
    case (Some x)
    with k have "test_method_part cls e True c s
        = Some (if ignore_failure (runtime_data (heap s c))
                 then set_status_at c ATTEMPTED (Str (str_of x)) s0
                 else set_status_at c FAILED (Str (''failed: '' @ str_of x)) s0)"
      by (simp add: test_method_part_def)
    with k Some show ?thesis by auto
  qed
qed

lemma after_case_part_total:
  assumes "0 \<le> retry (runtime_data (heap s c))"
  shows "\<exists>k s1. after_case_part cls e c s = Some s1 \<and> heap s1 = heap s \<and>
      trace s1 = trace s @ replicate k (AfterCase c) \<and>
      0 < k \<and> k \<le> nat (retry (runtime_data (heap s c)) + 1) \<and>
      ((\<forall>w. fst (after_case cls e w) \<noteq> None) \<longrightarrow> k = nat (retry (runtime_data (heap s c)) + 1))"
proof -
  let ?n = "retry (runtime_data (heap s c)) + 1"
  have pos: "0 \<le> ?n" "0 < ?n" using assms by auto
  from retry_call_total[OF pos(1), of "AfterCase c" "after_case cls e" s] pos(2)
  obtain k r s0 where
    k: "retry_call (invoke (AfterCase c) (after_case cls e)) ?n s = Some (r, s0)"
       "heap s0 = heap s" "trace s0 = trace s @ replicate k (AfterCase c)"
       "k \<le> nat ?n" "0 < k"
       "(\<forall>w. fst (after_case cls e w) \<noteq> None) \<longrightarrow> k = nat ?n"
    by blast
  then have "after_case_part cls e c s = Some s0" by (simp add: after_case_part_def)
  with k show ?thesis by blast
qed





lemma invoke_snd:
  "heap (snd (invoke ev h s)) = heap s" "trace (snd (invoke ev h s)) = trace s @ [ev]"
  by (simp_all add: invoke_def split: prod.splits)


lemma eval_retry [simp]:
  "retry_call f 0 s = Some (None, s)"
  "retry_call f 1 s =
     (case f s of (None, s1) \<Rightarrow> Some (None, s1) | (Some x, s1) \<Rightarrow> Some (Some x, s1))"
  "retry_call f 2 s =
     (case f s of (None, s1) \<Rightarrow> Some (None, s1) | (Some x, s1) \<Rightarrow> retry_call f 1 s1)"
  by (simp_all add: retry_call_zero retry_call_step split: prod.splits option.splits)

lemmas eval_suite =
  TestSuite_start_def run_case_def before_case_part_def test_method_part_def
  after_case_part_def invoke_def set_status_at_def set_status_def set_message_def
  result_message_def new_result_def example_case_def status_after_def calls_after_def









section \<open>Results only advance\<close>

lemma advances_refl [simp]: "advances r r"
  by (simp add: advances_def)

lemma settled_not_NOTRUN: "settled st \<Longrightarrow> st \<noteq> NOTRUN"
  by (auto simp: settled_def)

lemma advances_trans:
  assumes "advances r r1" and "advances r1 r2"
  shows "advances r r2"
proof -
  from assms have
    1: "runtime_data r1 = runtime_data r" "status r \<noteq> NOTRUN \<longrightarrow> status r1 \<noteq> NOTRUN"
       "settled (status r) \<longrightarrow> settled (status r1)" "fresh r \<longrightarrow> fresh r1 \<or> settled (status r1)"
    and 2: "runtime_data r2 = runtime_data r1" "status r1 \<noteq> NOTRUN \<longrightarrow> status r2 \<noteq> NOTRUN"
       "settled (status r1) \<longrightarrow> settled (status r2)" "fresh r1 \<longrightarrow> fresh r2 \<or> settled (status r2)"
    unfolding advances_def by blast+
  have "runtime_data r2 = runtime_data r" using 1(1) 2(1) by simp
  moreover have "status r \<noteq> NOTRUN \<longrightarrow> status r2 \<noteq> NOTRUN" using 1(2) 2(2) by blast
  moreover have "settled (status r) \<longrightarrow> settled (status r2)" using 1(3) 2(3) by blast
  moreover have "fresh r \<longrightarrow> fresh r2 \<or> settled (status r2)" using 1(4) 2(3,4) by blast
  ultimately show ?thesis unfolding advances_def by blast
qed

lemma heap_advances_refl [simp]: "heap_advances h h"
  by (simp add: heap_advances_def)

lemma heap_advances_trans:
  "heap_advances h h1 \<Longrightarrow> heap_advances h1 h2 \<Longrightarrow> heap_advances h h2"
  unfolding heap_advances_def by (intro allI) (rule advances_trans, erule spec, erule spec)

lemma heap_advances_upd:
  "advances (h c) r \<Longrightarrow> heap_advances h (h(c := r))"
  by (simp add: heap_advances_def)

lemma set_status_advances:
  "settled st \<Longrightarrow> advances r (fst (set_status st m r))"
  by (simp add: advances_def settled_not_NOTRUN)

lemma check_results_advances: "advances r (r\<lparr>check_results := x\<rparr>)"
  by (simp add: advances_def fresh_def)

lemma env_advances: "advances r (r\<lparr>env := x\<rparr>)"
  by (simp add: advances_def fresh_def)

lemma quiet_refl [simp]: "quiet s s"
  by (simp add: quiet_def)

lemma quiet_trans: "quiet s s1 \<Longrightarrow> quiet s1 s2 \<Longrightarrow> quiet s s2"
proof -
  assume a: "quiet s s1" and b: "quiet s1 s2"
  from a obtain evs1 where 1: "heap_advances (heap s) (heap s1)" "trace s1 = trace s @ evs1"
    "\<forall>e. Delete e \<notin> set evs1" by (auto simp: quiet_def)
  from b obtain evs2 where 2: "heap_advances (heap s1) (heap s2)" "trace s2 = trace s1 @ evs2"
    "\<forall>e. Delete e \<notin> set evs2" by (auto simp: quiet_def)
  have "trace s2 = trace s @ (evs1 @ evs2)" "\<forall>e. Delete e \<notin> set (evs1 @ evs2)"
    using 1 2 by auto
  with heap_advances_trans[OF 1(1) 2(1)] show ?thesis unfolding quiet_def by fast
qed

lemma quiet_heap: "quiet s s1 \<Longrightarrow> heap_advances (heap s) (heap s1)"
  by (simp add: quiet_def)

lemma quiet_world [simp]: "quiet s (s\<lparr>world := w\<rparr>)"
  by (simp add: quiet_def)

lemma quiet_set_status_at:
  assumes "settled st"
  shows "quiet s (set_status_at c st m s)"
proof -
  have "advances (heap s c) (fst (set_status st m (heap s c)))"
    using assms by (rule set_status_advances)
  then have "heap_advances (heap s) (heap (set_status_at c st m s))"
    unfolding set_status_at_heap by (rule heap_advances_upd)
  moreover have "trace (set_status_at c st m s)
      = trace s @ map Notify (snd (set_status st m (heap s c)))"
    by (rule set_status_at_trace)
  moreover have "\<forall>e. Delete e \<notin> set (map Notify (snd (set_status st m (heap s c))))"
    by auto
  ultimately show ?thesis unfolding quiet_def by blast
qed

lemma quiet_heap_upd: "advances (heap s c) r \<Longrightarrow> quiet s (s\<lparr>heap := (heap s)(c := r)\<rparr>)"
  by (simp add: quiet_def heap_advances_upd)

lemma quiet_invoke:
  "invoke ev h s = (r, s1) \<Longrightarrow> \<forall>e. ev \<noteq> Delete e \<Longrightarrow> quiet s s1"
  unfolding quiet_def by (auto simp: invoke_def split: prod.splits)

lemma quiet_retry_call:
  assumes "retry_call (invoke ev h) tries s = Some (r, s1)" and "\<forall>e. ev \<noteq> Delete e"
  shows "quiet s s1"
proof -
  from retry_call_frame[OF assms(1)] obtain k where
    "heap s1 = heap s" "trace s1 = trace s @ replicate k ev" by blast
  moreover have "\<forall>e. Delete e \<notin> set (replicate k ev)" using assms(2) by auto
  ultimately show ?thesis unfolding quiet_def by auto
qed

section \<open>The suite runner only advances results\<close>

lemma before_case_part_quiet:
  "before_case_part cls e cont msg c s = Some (b, s1) \<Longrightarrow> quiet s s1"
proof (cases cont)
  case False
  assume "before_case_part cls e cont msg c s = Some (b, s1)"
  with False have "s1 = set_status_at c SKIPPED (Str msg) s" by (simp add: before_case_part_def)
  then show ?thesis by (simp add: quiet_set_status_at settled_def)
next
  case True
  assume a: "before_case_part cls e cont msg c s = Some (b, s1)"
  then obtain r s0 where
    rc: "retry_call (invoke (BeforeCase c) (before_case cls e))
           (retry (runtime_data (heap s c)) + 1) s = Some (r, s0)"
    using True by (auto simp: before_case_part_def split: option.splits)
  have q0: "quiet s s0" using quiet_retry_call[OF rc] by simp
  show ?thesis
  proof (cases r)
    case None
    with a rc True have "s1 = s0" by (simp add: before_case_part_def)
    with q0 show ?thesis by simp
  next
    case (Some x)
    with a rc True have "s1 = set_status_at c SKIPPED (Str (''before_case: '' @ str_of x)) s0"
      by (simp add: before_case_part_def)
    moreover have "quiet s0 (set_status_at c SKIPPED (Str (''before_case: '' @ str_of x)) s0)"
      by (rule quiet_set_status_at) (simp add: settled_def)
    ultimately have "quiet s0 s1" by simp
    with q0 show ?thesis by (rule quiet_trans)
  qed
qed

lemma test_method_part_quiet:
  "test_method_part cls e cont c s = Some s1 \<Longrightarrow> quiet s s1"
proof (cases cont)
  case False
  assume "test_method_part cls e cont c s = Some s1"
  with False show ?thesis by (simp add: test_method_part_def)
next
  case True
  assume a: "test_method_part cls e cont c s = Some s1"
  then obtain r s0 where
    rc: "retry_call (invoke (TestMethod c) (test_method cls (name (runtime_data (heap s c))) e))
           (retry (runtime_data (heap s c)) + 1) s = Some (r, s0)"
    using True by (auto simp: test_method_part_def split: option.splits)
  have q0: "quiet s s0" using quiet_retry_call[OF rc] by simp
  have "\<exists>st m. settled st \<and> s1 = set_status_at c st m s0"
  proof (cases r)
    case None
    with a rc True have "s1 = set_status_at c PASSED (Str []) s0"
      by (simp add: test_method_part_def)
    then show ?thesis unfolding settled_def by blast
  next
    case (Some x)
    show ?thesis
    proof (cases "ignore_failure (runtime_data (heap s0 c))")
      case True
      with a rc Some \<open>cont\<close> have "s1 = set_status_at c ATTEMPTED (Str (str_of x)) s0"
        by (simp add: test_method_part_def)
      then show ?thesis unfolding settled_def by blast
    next
      case False
      with a rc Some \<open>cont\<close> have "s1 = set_status_at c FAILED (Str (''failed: '' @ str_of x)) s0"
        by (simp add: test_method_part_def)
      then show ?thesis unfolding settled_def by blast
    qed
  qed
  then obtain st m where st: "settled st" "s1 = set_status_at c st m s0" by blast
  have "quiet s0 s1" unfolding st(2) using st(1) by (rule quiet_set_status_at)
  with q0 show ?thesis by (rule quiet_trans)
qed

lemma after_case_part_quiet:
  "after_case_part cls e c s = Some s1 \<Longrightarrow> quiet s s1"
proof -
  assume "after_case_part cls e c s = Some s1"
  then obtain r where "retry_call (invoke (AfterCase c) (after_case cls e))
      (retry (runtime_data (heap s c)) + 1) s = Some (r, s1)"
    by (auto simp: after_case_part_def split: option.splits)
  from quiet_retry_call[OF this] show ?thesis by simp
qed

lemma run_case_quiet:
  "run_case cls e cont msg c s = Some s1 \<Longrightarrow> quiet s s1"
proof -
  assume a: "run_case cls e cont msg c s = Some s1"
  then obtain b sa sb where
    p: "before_case_part cls e cont msg c s = Some (b, sa)"
       "test_method_part cls e b c sa = Some sb" "after_case_part cls e c sb = Some s1"
    by (auto simp: run_case_def split: option.splits)
  have "quiet s sb"
    using before_case_part_quiet[OF p(1)] test_method_part_quiet[OF p(2)] by (rule quiet_trans)
  then show ?thesis using after_case_part_quiet[OF p(3)] by (rule quiet_trans)
qed

lemma run_cases_quiet:
  "run_cases cls e cont msg cs s = Some s1 \<Longrightarrow> quiet s s1"
proof (induction cs arbitrary: s)
  case Nil
  then show ?case by simp
next
  case (Cons c cs)
  from Cons.prems obtain sa where sa: "run_case cls e cont msg c s = Some sa"
    by (auto split: option.splits)
  show ?case
  proof (cases "should_stop cls (world sa)")
    case True
    with Cons.prems sa have "s1 = sa" by simp
    then show ?thesis using run_case_quiet[OF sa] by simp
  next
    case False
    with Cons.prems sa have "run_cases cls e cont msg cs sa = Some s1" by simp
    from run_case_quiet[OF sa] Cons.IH[OF this] show ?thesis by (rule quiet_trans)
  qed
qed

lemma TestSuite_start_quiet:
  "TestSuite_start cls e cs s = Some s1 \<Longrightarrow> quiet s s1"
proof -
  assume a: "TestSuite_start cls e cs s = Some s1"
  obtain r s0 where inv: "invoke BeforeSuite (before_suite cls e) s = (r, s0)"
    by (cases "invoke BeforeSuite (before_suite cls e) s")
  with a obtain sa where
    rc: "run_cases cls e (r = None)
           (case r of None \<Rightarrow> [] | Some x \<Rightarrow> ''before_suite: '' @ str_of x) cs s0 = Some sa"
    and s1: "s1 = snd (invoke AfterSuite (after_suite cls e) sa)"
    by (auto simp: TestSuite_start_def split: option.splits)
  have q0: "quiet s s0" using quiet_invoke[OF inv] by simp
  have q1: "quiet s0 sa" using run_cases_quiet[OF rc] .
  obtain r2 s2 where inv2: "invoke AfterSuite (after_suite cls e) sa = (r2, s2)"
    by (cases "invoke AfterSuite (after_suite cls e) sa")
  have q2: "quiet sa s1" using quiet_invoke[OF inv2] s1 inv2 by simp
  have "quiet s sa" using q0 q1 by (rule quiet_trans)
  then show ?thesis using q2 by (rule quiet_trans)
qed

section \<open>The scheduler only advances results\<close>

lemma check_environment_quiet:
  "check_environment ext c e save s = (r, s1) \<Longrightarrow> quiet s s1"
proof (cases "environment (requirement (runtime_data (heap s c)))")
  case None
  assume "check_environment ext c e save s = (r, s1)"
  with None have "s1 = s" by (simp add: check_environment_def Let_def)
  then show ?thesis by simp
next
  case (Some space)
  assume a: "check_environment ext c e save s = (r, s1)"
  show ?thesis
  proof (cases save)
    case False
    with a Some have "s1 = s" by (simp add: check_environment_def Let_def)
    then show ?thesis by simp
  next
    case True
    with a Some have
      "s1 = s\<lparr>heap := (heap s)(c := (heap s c)\<lparr>check_results := check_results (heap s1 c)\<rparr>)\<rparr>"
      by (auto simp: check_environment_def Let_def)
    then show ?thesis using quiet_heap_upd[OF check_results_advances] by metis
  qed
qed

lemma set_env_advances: "heap_advances h (set_env n cs h)"
proof (induction cs arbitrary: h)
  case Nil
  show ?case by (simp add: set_env_def)
next
  case (Cons c cs)
  have "heap_advances h (h(c := (h c)\<lparr>env := n\<rparr>))"
    by (rule heap_advances_upd) (rule env_advances)
  moreover have "heap_advances (h(c := (h c)\<lparr>env := n\<rparr>)) (set_env n cs (h(c := (h c)\<lparr>env := n\<rparr>)))"
    by (rule Cons.IH)
  ultimately have "heap_advances h (set_env n cs (h(c := (h c)\<lparr>env := n\<rparr>)))"
    by (rule heap_advances_trans)
  then show ?case by (simp add: set_env_def)
qed

lemma run_suite_quiet:
  assumes "run_suite ext e cs s = Some (r, s1)"
  shows "quiet s s1"
proof (cases cs)
  case Nil
  with assms have "s1 = s" by (simp add: run_suite_def)
  then show ?thesis by simp
next
  case (Cons c0 rest)
  define cls where "cls = suite_class ext (suite (runtime_data (heap s c0)))"
  define sa where "sa = s\<lparr>world := new_suite cls e (world s)\<rparr>"
  define sb where "sb = sa\<lparr>heap := set_env (env_name ext e (world sa)) cs (heap sa)\<rparr>"
  from assms Cons have "TestSuite_start cls e cs sb = Some s1"
    by (auto simp: run_suite_def Let_def cls_def sa_def sb_def split: option.splits)
  then have q: "quiet sb s1" by (rule TestSuite_start_quiet)
  have "heap_advances (heap s) (heap sb)" "trace sb = trace s"
    by (simp_all add: sb_def sa_def set_env_advances)
  then have "quiet s sb" unfolding quiet_def by simp
  then show ?thesis using q by (rule quiet_trans)
qed

lemma any_needed_quiet:
  "any_needed ext e cs s = (r, s1) \<Longrightarrow> quiet s s1"
proof (induction cs arbitrary: s)
  case Nil
  then show ?case by simp
next
  case (Cons c cs)
  show ?case
  proof (cases "can_run (heap s c)")
    case False
    with Cons.prems have "any_needed ext e cs s = (r, s1)" by simp
    then show ?thesis by (rule Cons.IH)
  next
    case True
    obtain b sa where ce: "check_environment ext c e True s = (b, sa)"
      by (cases "check_environment ext c e True s")
    have qa: "quiet s sa" using ce by (rule check_environment_quiet)
    show ?thesis
    proof (cases b)
      case (Raise x)
      with Cons.prems True ce have "s1 = sa" by simp
      with qa show ?thesis by simp
    next
      case (Return v)
      show ?thesis
      proof (cases v)
        case True
        with Cons.prems \<open>can_run (heap s c)\<close> ce Return have "s1 = sa" by simp
        with qa show ?thesis by simp
      next
        case False
        with Cons.prems \<open>can_run (heap s c)\<close> ce Return have "any_needed ext e cs sa = (r, s1)"
          by simp
        then have "quiet sa s1" by (rule Cons.IH)
        with qa show ?thesis by (rule quiet_trans)
      qed
    qed
  qed
qed

lemma run_new_env_quiet:
  "run_new_env ext e cs s = Some (r, s1) \<Longrightarrow> quiet s s1"
proof (induction cs arbitrary: s)
  case Nil
  then show ?case by simp
next
  case (Cons c cs)
  obtain b sa where ce: "check_environment ext c e True s = (b, sa)"
    by (cases "check_environment ext c e True s")
  have qa: "quiet s sa" using ce by (rule check_environment_quiet)
  show ?case
  proof (cases b)
    case (Raise x)
    with Cons.prems ce have "s1 = sa" by simp
    with qa show ?thesis by simp
  next
    case (Return v)
    show ?thesis
    proof (cases v)
      case True
      with Cons.prems ce Return have "run_suite ext e [c] sa = Some (r, s1)" by simp
      then have "quiet sa s1" by (rule run_suite_quiet)
      with qa show ?thesis by (rule quiet_trans)
    next
      case False
      with Cons.prems ce Return have "run_new_env ext e cs sa = Some (r, s1)" by simp
      then have "quiet sa s1" by (rule Cons.IH)
      with qa show ?thesis by (rule quiet_trans)
    qed
  qed
qed

lemma run_grouped_quiet:
  "run_grouped ext e cs grouped current s = Some (r, s1) \<Longrightarrow> quiet s s1"
proof (induction cs arbitrary: grouped current s)
  case Nil
  then show ?case by simp
next
  case (Cons c cs)
  show ?case
  proof (cases "can_run (heap s c)")
    case False
    with Cons.prems have "run_grouped ext e cs grouped current s = Some (r, s1)" by simp
    then show ?thesis by (rule Cons.IH)
  next
    case True
    obtain b sa where ce: "check_environment ext c e True s = (b, sa)"
      by (cases "check_environment ext c e True s")
    have qa: "quiet s sa" using ce by (rule check_environment_quiet)
    show ?thesis
    proof (cases b)
      case (Raise x)
      with Cons.prems True ce have "s1 = sa" by simp
      with qa show ?thesis by simp
    next
      case (Return v)
      show ?thesis
      proof (cases "v \<and> \<not> use_new_environment (runtime_data (heap sa c))")
        case False
        with Cons.prems True ce Return have
          "run_grouped ext e cs grouped current sa = Some (r, s1)" by auto
        then have "quiet sa s1" by (rule Cons.IH)
        with qa show ?thesis by (rule quiet_trans)
      next
        case take: True
        show ?thesis
        proof (cases "Some (suite (runtime_data (heap sa c))) \<noteq> current \<and> grouped \<noteq> []")
          case False
          with Cons.prems True ce Return take have
            "run_grouped ext e cs (grouped @ [c]) (Some (suite (runtime_data (heap sa c)))) sa
               = Some (r, s1)" by auto
          then have "quiet sa s1" by (rule Cons.IH)
          with qa show ?thesis by (rule quiet_trans)
        next
          case flush: True
          from Cons.prems True ce Return take flush obtain rb sb where
            rs: "run_suite ext e grouped sa = Some (rb, sb)"
            by (auto split: option.splits)
          have qb: "quiet sa sb" using rs by (rule run_suite_quiet)
          have qsb: "quiet s sb" using qa qb by (rule quiet_trans)
          show ?thesis
          proof (cases rb)
            case (Raise x)
            with Cons.prems True ce Return take flush rs have "s1 = sb" by auto
            with qsb show ?thesis by simp
          next
            case R2: (Return u)
            with Cons.prems True ce Return take flush rs have
              "run_grouped ext e cs [c] (Some (suite (runtime_data (heap sb c)))) sb
                 = Some (r, s1)" by auto
            then have "quiet sb s1" by (rule Cons.IH)
            with qsb show ?thesis by (rule quiet_trans)
          qed
        qed
      qed
    qed
  qed
qed

lemma and_then_cases:
  assumes "and_then m f = Some (r, s1)"
  shows "(\<exists>x. m = Some (Raise x, s1) \<and> r = Raise x) \<or>
         (\<exists>a s0. m = Some (Return a, s0) \<and> f a s0 = Some (r, s1))"
  using assms by (auto simp: and_then_def split: option.splits result.splits prod.splits)

lemma and_then_quiet:
  assumes run: "and_then m f = Some (r, s1)"
    and first: "\<And>r0 s0. m = Some (r0, s0) \<Longrightarrow> quiet s s0"
    and rest: "\<And>a s0. m = Some (Return a, s0) \<Longrightarrow> f a s0 = Some (r, s1) \<Longrightarrow> quiet s0 s1"
  shows "quiet s s1"
proof -
  from and_then_cases[OF run] show ?thesis
  proof
    assume "\<exists>x. m = Some (Raise x, s1) \<and> r = Raise x"
    then show ?thesis using first by blast
  next
    assume "\<exists>a s0. m = Some (Return a, s0) \<and> f a s0 = Some (r, s1)"
    then obtain a s0 where m: "m = Some (Return a, s0)" and f: "f a s0 = Some (r, s1)" by blast
    from first[OF m] rest[OF m f] show ?thesis by (rule quiet_trans)
  qed
qed

lemma deploy_quiet:
  assumes "deploy ext e s = (r, s1)"
  shows "quiet s s1"
proof -
  obtain ro sb where inv: "invoke (Deploy e) (deploy_environment ext e) s = (ro, sb)"
    by (cases "invoke (Deploy e) (deploy_environment ext e) s")
  have "s1 = sb" using assms inv by (auto simp: deploy_def split: option.splits exn.splits)
  then show ?thesis using quiet_invoke[OF inv] by simp
qed

lemma run_on_environment_quiet:
  assumes "run_on_environment ext e crr new_env s = Some (r, s1)"
  shows "quiet s s1"
proof (rule and_then_quiet[OF assms[unfolded run_on_environment_def]])
  fix r0 s0 assume "run_new_env ext e new_env s = Some (r0, s0)"
  then show "quiet s s0" by (rule run_new_env_quiet)
next
  fix u sa
  assume a: "and_then (run_grouped ext e crr [] None sa) (\<lambda>grouped_cases s2.
       if grouped_cases \<noteq> [] then run_suite ext e grouped_cases s2
       else Some (Return (), s2)) = Some (r, s1)"
  show "quiet sa s1"
  proof (rule and_then_quiet[OF a])
    fix r0 s0 assume "run_grouped ext e crr [] None sa = Some (r0, s0)"
    then show "quiet sa s0" by (rule run_grouped_quiet)
  next
    fix grouped sb
    assume b: "(if grouped \<noteq> [] then run_suite ext e grouped sb
       else Some (Return (), sb)) = Some (r, s1)"
    show "quiet sb s1"
    proof (cases "grouped = []")
      case True
      with b have "s1 = sb" by simp
      then show ?thesis by simp
    next
      case False
      with b have "run_suite ext e grouped sb = Some (r, s1)" by simp
      then show ?thesis by (rule run_suite_quiet)
    qed
  qed
qed

lemma try_block_quiet:
  assumes "try_block ext e can_run_results s = Some (r, s1)"
  shows "quiet s s1"
proof -
  define crr where "crr = sort_key (\<lambda>c. suite (runtime_data (heap s c)))
                            (filter (\<lambda>c. can_run (heap s c)) can_run_results)"
  define new_env where "new_env = filter (\<lambda>c. use_new_environment (runtime_data (heap s c))) crr"
  show ?thesis
  proof (cases "crr = []")
    case True
    with assms have "s1 = s" by (simp add: try_block_def Let_def crr_def)
    then show ?thesis by simp
  next
    case False
    with assms have run: "and_then (Some (any_needed ext e crr s)) (\<lambda>is_needed s1.
           if \<not> is_needed then Some (Return (Next, crr), s1)
           else and_then (Some (deploy ext e s1)) (\<lambda>deployed s2.
             if \<not> deployed then Some (Return (Next, crr), s2)
             else if \<not> is_ready ext e (world s2) then Some (Return (Next, crr), s2)
             else and_then (run_on_environment ext e crr new_env s2)
                    (\<lambda>_ s3. Some (Return (Next, crr), s3)))) = Some (r, s1)"
      unfolding try_block_def Let_def crr_def[symmetric] new_env_def[symmetric] by simp
    show ?thesis
    proof (rule and_then_quiet[OF run])
      fix r0 s0 assume "Some (any_needed ext e crr s) = Some (r0, s0)"
      then have "any_needed ext e crr s = (r0, s0)" by simp
      then show "quiet s s0" by (rule any_needed_quiet)
    next
      fix is_needed sa
      assume b: "(if \<not> is_needed then Some (Return (Next, crr), sa)
           else and_then (Some (deploy ext e sa)) (\<lambda>deployed s2.
             if \<not> deployed then Some (Return (Next, crr), s2)
             else if \<not> is_ready ext e (world s2) then Some (Return (Next, crr), s2)
             else and_then (run_on_environment ext e crr new_env s2)
                    (\<lambda>_ s3. Some (Return (Next, crr), s3)))) = Some (r, s1)"
      show "quiet sa s1"
      proof (cases is_needed)
        case False
        with b have "s1 = sa" by simp
        then show ?thesis by simp
      next
        case True
        with b have c: "and_then (Some (deploy ext e sa)) (\<lambda>deployed s2.
             if \<not> deployed then Some (Return (Next, crr), s2)
             else if \<not> is_ready ext e (world s2) then Some (Return (Next, crr), s2)
             else and_then (run_on_environment ext e crr new_env s2)
                    (\<lambda>_ s3. Some (Return (Next, crr), s3))) = Some (r, s1)" by simp
        show ?thesis
        proof (rule and_then_quiet[OF c])
          fix r0 s0 assume "Some (deploy ext e sa) = Some (r0, s0)"
          then have "deploy ext e sa = (r0, s0)" by simp
          then show "quiet sa s0" by (rule deploy_quiet)
        next
          fix deployed sb
          assume d: "(if \<not> deployed then Some (Return (Next, crr), sb)
             else if \<not> is_ready ext e (world sb) then Some (Return (Next, crr), sb)
             else and_then (run_on_environment ext e crr new_env sb)
                    (\<lambda>_ s3. Some (Return (Next, crr), s3))) = Some (r, s1)"
          show "quiet sb s1"
          proof (cases "deployed \<and> is_ready ext e (world sb)")
            case False
            with d have "s1 = sb" by (auto split: if_splits)
            then show ?thesis by simp
          next
            case True
            with d have f: "and_then (run_on_environment ext e crr new_env sb)
                    (\<lambda>_ s3. Some (Return (Next, crr), s3)) = Some (r, s1)" by simp
            show ?thesis
            proof (rule and_then_quiet[OF f])
              fix r0 s0 assume "run_on_environment ext e crr new_env sb = Some (r0, s0)"
              then show "quiet sb s0" by (rule run_on_environment_quiet)
            next
              fix u s3 assume "Some (Return (Next, crr), s3) = Some (r, s1)"
              then have "s1 = s3" by simp
              then show "quiet s3 s1" by simp
            qed
          qed
        qed
      qed
    qed
  qed
qed

lemma try_block_returns:
  assumes "try_block ext e can_run_results s = Some (Return (ctl, crr), s1)"
  shows "crr = sort_key (\<lambda>c. suite (runtime_data (heap s c)))
                 (filter (\<lambda>c. can_run (heap s c)) can_run_results)"
  using assms
  by (auto simp: try_block_def Let_def and_then_def
      split: if_splits option.splits result.splits prod.splits)

lemma finally_block_heap:
  "finally_block ext e s = (r, s1) \<Longrightarrow> heap s1 = heap s"
  by (auto simp: finally_block_def invoke_def split: if_splits prod.splits)

lemma finally_block_trace:
  "finally_block ext e s = (r, s1) \<Longrightarrow>
     (if is_ready ext e (world s) then trace s1 = trace s @ [Delete e] else s1 = s \<and> r = None)"
  by (auto simp: finally_block_def invoke_def split: if_splits prod.splits)

lemma iteration_cases:
  assumes "iteration ext e crr s = Some (r, s2)"
  shows "\<exists>r0 s1 rf. try_block ext e crr s = Some (r0, s1) \<and> finally_block ext e s1 = (rf, s2) \<and>
           (case rf of None \<Rightarrow> r = r0 | Some x \<Rightarrow> r = Raise x)"
  using assms by (auto simp: iteration_def split: option.splits prod.splits)

lemma iteration_advances:
  assumes "iteration ext e crr s = Some (r, s2)"
  shows "heap_advances (heap s) (heap s2)"
proof -
  from iteration_cases[OF assms] obtain r0 s1 rf where
    t: "try_block ext e crr s = Some (r0, s1)" and f: "finally_block ext e s1 = (rf, s2)"
    by blast
  have "heap_advances (heap s) (heap s1)" using try_block_quiet[OF t] by (rule quiet_heap)
  then show ?thesis using finally_block_heap[OF f] by simp
qed

lemma iteration_returns:
  assumes "iteration ext e crr s = Some (Return (ctl, crr1), s2)"
  shows "set crr1 = {c \<in> set crr. status (heap s c) = NOTRUN}"
proof -
  from iteration_cases[OF assms] obtain r0 s1 rf where
    t: "try_block ext e crr s = Some (r0, s1)"
    and r: "(case rf of None \<Rightarrow> Return (ctl, crr1) = r0 | Some x \<Rightarrow> Return (ctl, crr1) = Raise x)"
    by blast
  from r have "r0 = Return (ctl, crr1)" by (cases rf) auto
  with t have "try_block ext e crr s = Some (Return (ctl, crr1), s1)" by simp
  from try_block_returns[OF this] show ?thesis by (auto simp: can_run_def)
qed

lemma advances_NOTRUN: "advances r r1 \<Longrightarrow> status r1 = NOTRUN \<Longrightarrow> status r = NOTRUN"
  by (auto simp: advances_def)

lemma environments_loop_advances:
  "environments_loop ext es crr s = Some (r, s1) \<Longrightarrow>
     heap_advances (heap s) (heap s1) \<and>
     (\<forall>crr1. r = Return crr1 \<longrightarrow>
        (\<forall>c \<in> set crr. status (heap s1 c) = NOTRUN \<longrightarrow> c \<in> set crr1))"
proof (induction es arbitrary: crr s)
  case Nil
  then show ?case by auto
next
  case (Cons e es)
  from Cons.prems obtain ri sa where it: "iteration ext e crr s = Some (ri, sa)"
    by (auto split: option.splits)
  have adv: "heap_advances (heap s) (heap sa)" using it by (rule iteration_advances)
  show ?case
  proof (cases ri)
    case (Raise x)
    with Cons.prems it have "s1 = sa" "r = Raise x" by auto
    with adv show ?thesis by simp
  next
    case (Return p)
    obtain ctl crra where p: "p = (ctl, crra)" by (cases p)
    have set_a: "set crra = {c \<in> set crr. status (heap s c) = NOTRUN}"
      using iteration_returns[of ext e crr s ctl crra sa] it Return p by simp
    have keep: "\<forall>c \<in> set crr. status (heap sa c) = NOTRUN \<longrightarrow> c \<in> set crra"
    proof (intro ballI impI)
      fix c assume c: "c \<in> set crr" "status (heap sa c) = NOTRUN"
      have "advances (heap s c) (heap sa c)" using adv by (simp add: heap_advances_def)
      from advances_NOTRUN[OF this c(2)] c(1) set_a show "c \<in> set crra" by simp
    qed
    show ?thesis
    proof (cases ctl)
      case Break
      with Cons.prems it Return p have "s1 = sa" "r = Return crra" by auto
      with adv keep show ?thesis by simp
    next
      case Next
      with Cons.prems it Return p have rec: "environments_loop ext es crra sa = Some (r, s1)"
        by auto
      from Cons.IH[OF rec] have
        ih: "heap_advances (heap sa) (heap s1)"
        "\<forall>crr1. r = Return crr1 \<longrightarrow>
           (\<forall>c \<in> set crra. status (heap s1 c) = NOTRUN \<longrightarrow> c \<in> set crr1)"
        by blast+
      have all: "heap_advances (heap s) (heap s1)" using adv ih(1) by (rule heap_advances_trans)
      have "\<forall>crr1. r = Return crr1 \<longrightarrow>
           (\<forall>c \<in> set crr. status (heap s1 c) = NOTRUN \<longrightarrow> c \<in> set crr1)"
      proof (intro allI impI ballI)
        fix crr1 c assume r: "r = Return crr1" and c: "c \<in> set crr" "status (heap s1 c) = NOTRUN"
        have "advances (heap sa c) (heap s1 c)" using ih(1) by (simp add: heap_advances_def)
        from advances_NOTRUN[OF this c(2)] have "status (heap sa c) = NOTRUN" .
        with keep c(1) have "c \<in> set crra" by blast
        with ih(2) r c(2) show "c \<in> set crr1" by blast
      qed
      with all show ?thesis by blast
    qed
  qed
qed

lemma merge_one_quiet:
  assumes "merge_one ext c s = (r, s1)"
  shows "quiet s s1"
proof -
  define sa where "sa = check_platform_type ext c s"
  have "sa = s \<or> (\<exists>m. sa = set_status_at c SKIPPED m s)"
    unfolding sa_def check_platform_type_def Let_def by auto
  then have qa: "quiet s sa"
    using quiet_set_status_at[of SKIPPED s c] by (auto simp: settled_def)
  have "s1 = sa \<or> (\<exists>w. s1 = sa\<lparr>world := w\<rparr>)"
    using assms unfolding merge_one_def sa_def[symmetric] request_environment_def
    by (auto split: if_splits option.splits prod.splits)
  then have "quiet sa s1" by auto
  with qa show ?thesis by (rule quiet_trans)
qed

lemma merge_loop_quiet:
  "merge_loop ext cs s = (r, s1) \<Longrightarrow> quiet s s1"
proof (induction cs arbitrary: s)
  case Nil
  then show ?case by simp
next
  case (Cons c cs)
  obtain ra sa where m: "merge_one ext c s = (ra, sa)" by (cases "merge_one ext c s")
  have qa: "quiet s sa" using m by (rule merge_one_quiet)
  show ?case
  proof (cases ra)
    case (Raise x)
    with Cons.prems m have "s1 = sa" by simp
    with qa show ?thesis by simp
  next
    case (Return u)
    with Cons.prems m have "merge_loop ext cs sa = (r, s1)" by simp
    then have "quiet sa s1" by (rule Cons.IH)
    with qa show ?thesis by (rule quiet_trans)
  qed
qed

lemma merge_test_requirements_quiet:
  "merge_test_requirements ext cs s = (r, s1) \<Longrightarrow> quiet s s1"
  by (auto simp: merge_test_requirements_def split: if_splits dest: merge_loop_quiet)

lemma skip_not_run_heap:
  "heap (skip_not_run ext cs s) c =
     (if c \<in> set cs \<and> can_run (heap s c)
      then fst (set_status SKIPPED (Str (no_environment_reasons ext (heap s c))) (heap s c))
      else heap s c)"
proof (induction cs arbitrary: s)
  case Nil
  show ?case by simp
next
  case (Cons a cs)
  define sa where "sa = (if can_run (heap s a)
        then set_status_at a SKIPPED (Str (no_environment_reasons ext (heap s a))) s
        else s)"
  have step: "skip_not_run ext (a # cs) s = skip_not_run ext cs sa" by (simp add: sa_def)
  have ha: "heap sa = (if can_run (heap s a)
      then (heap s)(a := fst (set_status SKIPPED (Str (no_environment_reasons ext (heap s a))) (heap s a)))
      else heap s)"
    by (simp add: sa_def set_status_at_heap)
  show ?case unfolding step Cons.IH
    by (auto simp: ha can_run_def)
qed

lemma skip_not_run_quiet: "quiet s (skip_not_run ext cs s)"
proof (induction cs arbitrary: s)
  case Nil
  show ?case by simp
next
  case (Cons a cs)
  define sa where "sa = (if can_run (heap s a)
        then set_status_at a SKIPPED (Str (no_environment_reasons ext (heap s a))) s
        else s)"
  have "quiet s sa" unfolding sa_def using quiet_set_status_at[of SKIPPED s a]
    by (simp add: settled_def)
  moreover have "quiet sa (skip_not_run ext cs sa)" by (rule Cons.IH)
  ultimately have "quiet s (skip_not_run ext cs sa)" by (rule quiet_trans)
  then show ?case by (simp add: sa_def)
qed

lemma create_test_results_at:
  "create_test_results xs a h i =
     (if a \<le> i \<and> i < a + length xs then new_result (xs ! (i - a)) else h i)"
proof (induction xs arbitrary: a h)
  case Nil
  show ?case by auto
next
  case (Cons x xs)
  have "create_test_results (x # xs) a h i
      = create_test_results xs (Suc a) (h(a := new_result x)) i" by simp
  also have "\<dots> = (if Suc a \<le> i \<and> i < Suc a + length xs
                    then new_result (xs ! (i - Suc a)) else (h(a := new_result x)) i)"
    by (rule Cons.IH)
  also have "\<dots> = (if a \<le> i \<and> i < a + length (x # xs)
                    then new_result ((x # xs) ! (i - a)) else h i)"
    by (auto simp: nth_Cons' Suc_le_eq)
  finally show ?case .
qed

section \<open>Claims about the scheduler\<close>

lemma count_results_get:
  "(case count_results h cs d st of None \<Rightarrow> 0 | Some n \<Rightarrow> n)
     = (case d st of None \<Rightarrow> 0 | Some n \<Rightarrow> n) + int (length (filter (\<lambda>c. status (h c) = st) cs))"
  by (induction cs arbitrary: d) (auto split: option.splits)

lemma LisaRunner_start_cases:
  assumes "LisaRunner_start ext self cases s = Some (Return self1, s1)"
  shows "\<exists>crr sl. schedule ext cases s = Some (Return crr, sl) \<and>
           s1 = skip_not_run ext crr sl \<and>
           exit_code self1 = int (length (filter (\<lambda>c. status (heap s1 c) = FAILED)
                                            [0 ..< length cases]))"
proof -
  from and_then_cases[OF assms[unfolded LisaRunner_start_def]]
  obtain crr sl where
    sch: "schedule ext cases s = Some (Return crr, sl)"
    and fin: "(let selected_test_results = [0 ..< length cases];
            s2 = skip_not_run ext crr sl;
            result_count_dict = count_results (heap s2) selected_test_results Map.empty
        in Some (Return (self\<lparr>exit_code := (case result_count_dict FAILED of
                                                None \<Rightarrow> 0 | Some n \<Rightarrow> n),
                               latest_test_results := selected_test_results\<rparr>), s2))
        = Some (Return self1, s1)"
    by blast
  from fin have s1: "s1 = skip_not_run ext crr sl"
    and ec: "exit_code self1 = (case count_results (heap s1) [0 ..< length cases] Map.empty FAILED
                                of None \<Rightarrow> 0 | Some n \<Rightarrow> n)"
    by (auto simp: Let_def)
  have "exit_code self1 = int (length (filter (\<lambda>c. status (heap s1 c) = FAILED)
                                            [0 ..< length cases]))"
    unfolding ec count_results_get by simp
  with sch s1 show ?thesis by blast
qed

lemma eval_sort [simp]: "sort_key f [] = []" "sort_key f [x] = [x]"
  "f x = f y \<Longrightarrow> sort_key f [x, y] = [x, y]"
  by simp_all

lemmas eval_runner =
  LisaRunner_start_def schedule_def and_then_def merge_test_requirements_def merge_one_def
  check_platform_type_def request_environment_def set_space_true_def iteration_def
  try_block_def finally_block_def deploy_def run_on_environment_def run_suite_def
  check_environment_def set_env_def can_run_def no_environment_reasons_def list_repr_def
  example_externals_def example_suite_def new_runner_def empty_state_def good_and_bad_def
  example_requirement_def failing_hook_def passing_hook_def Let_def

text \<open>
  C1. When \<^verbatim>\<open>LisaRunner.start\<close> returns, the exit code of the runner is the number of selected
  results whose status is \<open>FAILED\<close>; so it is 0 when no result is \<open>FAILED\<close>, for one when
  every result is \<open>SKIPPED\<close>.
\<close>

theorem exit_code_counts_failed:
  assumes "LisaRunner_start ext self cases s = Some (Return self1, s1)"
  shows "exit_code self1
           = int (length (filter (\<lambda>c. status (heap s1 c) = FAILED) [0 ..< length cases])) \<and>
         ((\<forall>c < length cases. status (heap s1 c) \<noteq> FAILED) \<longrightarrow> exit_code self1 = 0) \<and>
         ((\<forall>c < length cases. status (heap s1 c) = SKIPPED) \<longrightarrow> exit_code self1 = 0)"
proof -
  from LisaRunner_start_cases[OF assms] have
    ec: "exit_code self1
           = int (length (filter (\<lambda>c. status (heap s1 c) = FAILED) [0 ..< length cases]))"
    by blast
  have none: "(\<forall>c < length cases. status (heap s1 c) \<noteq> FAILED) \<longrightarrow> exit_code self1 = 0"
    unfolding ec by (auto simp: filter_empty_conv)
  then have "(\<forall>c < length cases. status (heap s1 c) = SKIPPED) \<longrightarrow> exit_code self1 = 0"
    by auto
  with ec none show ?thesis by blast
qed

theorem exit_code_counts_failed_witness:
  "\<exists>self1 s1. LisaRunner_start (example_externals True True) new_runner good_and_bad empty_state
       = Some (Return self1, s1) \<and>
     status (heap s1 0) = PASSED \<and> status (heap s1 1) = FAILED \<and> exit_code self1 = 1"
proof -
  have "\<exists>self1 s1. LisaRunner_start (example_externals True True) new_runner good_and_bad empty_state
       = Some (Return self1, s1) \<and> status (heap s1 0) = PASSED \<and> status (heap s1 1) = FAILED"
    by (simp add: eval_runner eval_suite)
  then obtain self1 s1 where
    run: "LisaRunner_start (example_externals True True) new_runner good_and_bad empty_state
       = Some (Return self1, s1)"
    and st: "status (heap s1 0) = PASSED" "status (heap s1 1) = FAILED"
    by blast
  have "[0 ..< length good_and_bad] = [0, 1]" by (simp add: good_and_bad_def upt_rec)
  with exit_code_counts_failed[OF run] st have "exit_code self1 = 1" by simp
  with run st show ?thesis by blast
qed

lemma schedule_results:
  assumes "schedule ext cases s = Some (Return crr, sl)"
  shows "\<forall>c < length cases.
           (fresh (heap sl c) \<or> settled (status (heap sl c))) \<and>
           (status (heap sl c) = NOTRUN \<longrightarrow> c \<in> set crr)"
proof -
  define s0 where "s0 = s\<lparr>heap := create_test_results cases 0 (heap s)\<rparr>"
  have run: "and_then (Some (merge_test_requirements ext [0 ..< length cases] s0)) (\<lambda>_ s1.
         and_then (case prepare_environments ext (world s1) of
                     (r, w) \<Rightarrow> Some (r, s1\<lparr>world := w\<rparr>)) (\<lambda>prepared_environments s2.
           environments_loop ext prepared_environments [0 ..< length cases] s2))
       = Some (Return crr, sl)"
    using assms unfolding schedule_def Let_def s0_def by simp
  from and_then_cases[OF run] obtain u sa where
    m: "merge_test_requirements ext [0 ..< length cases] s0 = (Return u, sa)"
    and rest: "and_then (case prepare_environments ext (world sa) of
                     (r, w) \<Rightarrow> Some (r, sa\<lparr>world := w\<rparr>)) (\<lambda>prepared_environments s2.
           environments_loop ext prepared_environments [0 ..< length cases] s2)
         = Some (Return crr, sl)"
    by auto
  from and_then_cases[OF rest] obtain es sb where
    p: "(case prepare_environments ext (world sa) of (r, w) \<Rightarrow> Some (r, sa\<lparr>world := w\<rparr>))
          = Some (Return es, sb)"
    and loop: "environments_loop ext es [0 ..< length cases] sb = Some (Return crr, sl)"
    by auto
  from p have hb: "heap sb = heap sa" by (auto split: prod.splits)
  have a1: "heap_advances (heap s0) (heap sa)"
    using merge_test_requirements_quiet[OF m] by (rule quiet_heap)
  from environments_loop_advances[OF loop] have
    a2: "heap_advances (heap sb) (heap sl)"
    and keep: "\<forall>c \<in> set [0 ..< length cases]. status (heap sl c) = NOTRUN \<longrightarrow> c \<in> set crr"
    by blast+
  have adv: "heap_advances (heap s0) (heap sl)"
    using a1 a2 unfolding hb by (rule heap_advances_trans)
  show ?thesis
  proof (intro allI impI conjI)
    fix c assume c: "c < length cases"
    have "heap s0 c = new_result (cases ! c)"
      using c by (simp add: s0_def create_test_results_at)
    then have "fresh (heap s0 c)" by (simp add: fresh_def new_result_def)
    moreover have "advances (heap s0 c) (heap sl c)" using adv by (simp add: heap_advances_def)
    ultimately show "fresh (heap sl c) \<or> settled (status (heap sl c))"
      by (simp add: advances_def)
  next
    fix c assume "c < length cases" "status (heap sl c) = NOTRUN"
    then show "c \<in> set crr" using keep by simp
  qed
qed

lemma no_environment_reasons_not_empty: "no_environment_reasons ext r \<noteq> []"
  by (simp add: no_environment_reasons_def split: option.splits)

text \<open>
  C4. When \<^verbatim>\<open>LisaRunner.start\<close> returns, every selected result has one of the statuses
  \<open>PASSED\<close>, \<open>FAILED\<close>, \<open>SKIPPED\<close>, \<open>ATTEMPTED\<close>. A result that is still \<open>NOTRUN\<close> when the loop
  over the environments has ended is set \<open>SKIPPED\<close> with the message
  \<^verbatim>\<open>no available environment\<close>, followed by the recorded reasons of the checks when there are
  any (\<open>no_environment_reasons\<close>); the other results are left as the loop left them.
\<close>

theorem every_result_gets_a_terminal_status:
  assumes "LisaRunner_start ext self cases s = Some (Return self1, s1)"
  shows "(\<forall>c < length cases. status (heap s1 c) \<in> {PASSED, FAILED, SKIPPED, ATTEMPTED}) \<and>
         (\<exists>crr sl. schedule ext cases s = Some (Return crr, sl) \<and>
            (\<forall>c < length cases.
               (status (heap sl c) = NOTRUN \<longrightarrow>
                  status (heap s1 c) = SKIPPED \<and>
                  message (heap s1 c) = no_environment_reasons ext (heap sl c)) \<and>
               (status (heap sl c) \<noteq> NOTRUN \<longrightarrow> heap s1 c = heap sl c)))"
proof -
  from LisaRunner_start_cases[OF assms] obtain crr sl where
    sch: "schedule ext cases s = Some (Return crr, sl)" and s1: "s1 = skip_not_run ext crr sl"
    by blast
  note res = schedule_results[OF sch]
  have left: "status (heap s1 c) = SKIPPED \<and>
                  message (heap s1 c) = no_environment_reasons ext (heap sl c)"
    if c: "c < length cases" and n: "status (heap sl c) = NOTRUN" for c
  proof -
    from res c n have "c \<in> set crr" by blast
    moreover have "\<not> settled (status (heap sl c))" using n by (simp add: settled_def)
    with res c have "fresh (heap sl c)" by blast
    then have "message (heap sl c) = []" by (simp add: fresh_def)
    ultimately show ?thesis
      using n no_environment_reasons_not_empty[of ext "heap sl c"]
      by (simp add: s1 skip_not_run_heap can_run_def set_message_Str)
  qed
  have kept: "heap s1 c = heap sl c" if "status (heap sl c) \<noteq> NOTRUN" for c
    using that by (simp add: s1 skip_not_run_heap can_run_def)
  have terminal: "status (heap s1 c) \<in> {PASSED, FAILED, SKIPPED, ATTEMPTED}"
    if c: "c < length cases" for c
  proof (cases "status (heap sl c) = NOTRUN")
    case True
    from left[OF c True] show ?thesis by simp
  next
    case False
    then have "\<not> fresh (heap sl c)" by (simp add: fresh_def)
    with res c have "settled (status (heap sl c))" by blast
    then show ?thesis using kept[OF False] by (auto simp: settled_def)
  qed
  have second: "\<forall>c < length cases.
               (status (heap sl c) = NOTRUN \<longrightarrow>
                  status (heap s1 c) = SKIPPED \<and>
                  message (heap s1 c) = no_environment_reasons ext (heap sl c)) \<and>
               (status (heap sl c) \<noteq> NOTRUN \<longrightarrow> heap s1 c = heap sl c)"
    using left kept by blast
  show ?thesis
  proof (intro conjI exI)
    show "\<forall>c < length cases. status (heap s1 c) \<in> {PASSED, FAILED, SKIPPED, ATTEMPTED}"
      using terminal by blast
    show "schedule ext cases s = Some (Return crr, sl)" by (rule sch)
    show "\<forall>c < length cases.
               (status (heap sl c) = NOTRUN \<longrightarrow>
                  status (heap s1 c) = SKIPPED \<and>
                  message (heap s1 c) = no_environment_reasons ext (heap sl c)) \<and>
               (status (heap sl c) \<noteq> NOTRUN \<longrightarrow> heap s1 c = heap sl c)"
      by (rule second)
  qed
qed

theorem every_result_gets_a_terminal_status_witness:
  "\<exists>self1 s1. LisaRunner_start (example_externals False False) new_runner good_and_bad empty_state
       = Some (Return self1, s1) \<and>
     status (heap s1 0) = SKIPPED \<and> status (heap s1 1) = SKIPPED \<and>
     message (heap s1 0) = ''no available environment: ['' @ [CHR 0x27] @ ''no match''
        @ [CHR 0x27] @ '']''"
proof -
  have "\<exists>self1 s1. LisaRunner_start (example_externals False False) new_runner good_and_bad
       empty_state = Some (Return self1, s1) \<and>
     message (heap s1 0) = ''no available environment: ['' @ [CHR 0x27] @ ''no match''
        @ [CHR 0x27] @ '']''"
    by (simp add: eval_runner eval_suite)
  then obtain self1 s1 where
    run: "LisaRunner_start (example_externals False False) new_runner good_and_bad empty_state
       = Some (Return self1, s1)"
    and msg: "message (heap s1 0) = ''no available environment: ['' @ [CHR 0x27] @ ''no match''
        @ [CHR 0x27] @ '']''"
    by blast
  from every_result_gets_a_terminal_status[OF run] obtain crr sl where
    sch: "schedule (example_externals False False) good_and_bad empty_state = Some (Return crr, sl)"
    and each: "\<forall>c < length good_and_bad.
               (status (heap sl c) = NOTRUN \<longrightarrow>
                  status (heap s1 c) = SKIPPED \<and>
                  message (heap s1 c) = no_environment_reasons (example_externals False False) (heap sl c)) \<and>
               (status (heap sl c) \<noteq> NOTRUN \<longrightarrow> heap s1 c = heap sl c)"
    by blast
  have "status (heap sl 0) = NOTRUN \<and> status (heap sl 1) = NOTRUN"
    using sch by (simp add: eval_runner eval_suite) auto
  with each have "status (heap s1 0) = SKIPPED \<and> status (heap s1 1) = SKIPPED"
    by (simp add: good_and_bad_def)
  with run msg show ?thesis by blast
qed

text \<open>
  C8, as stated, fails: the \<^verbatim>\<open>finally\<close> block calls \<^verbatim>\<open>delete_environment\<close> only under
  \<^verbatim>\<open>if environment and environment.is_ready\<close>. Here the environment meets the requirement of
  no case, so the pass of the loop skips it; it was never deployed, is not ready, and is
  not deprovisioned.
\<close>

theorem deprovision_counterexample:
  "deletions_after (iteration (example_externals False False) () [0] empty_state) () = Some 0"
  by (simp add: deletions_after_def eval_runner eval_suite)

text \<open>
  C8, amended. However the \<^verbatim>\<open>try\<close> block of a pass of the loop is left (\<^verbatim>\<open>break\<close>, \<^verbatim>\<open>continue\<close>,
  its end, or an exception), the \<^verbatim>\<open>finally\<close> block runs, and it calls \<^verbatim>\<open>delete_environment\<close>
  for the environment of the pass exactly when that environment is ready at that moment;
  the \<^verbatim>\<open>try\<close> block itself never calls \<^verbatim>\<open>delete_environment\<close>. An environment that is not
  ready is left alone and the outcome of the \<^verbatim>\<open>try\<close> block stands.
\<close>

theorem deprovision_when_ready:
  assumes "try_block ext e crr s = Some (r0, s1)"
  shows "\<exists>r s2 evs. iteration ext e crr s = Some (r, s2) \<and>
      trace s1 = trace s @ evs \<and> (\<forall>d. Delete d \<notin> set evs) \<and>
      (is_ready ext e (world s1) \<longrightarrow>
         trace s2 = trace s1 @ [Delete e] \<and> (r = r0 \<or> (\<exists>x. r = Raise x))) \<and>
      (\<not> is_ready ext e (world s1) \<longrightarrow> s2 = s1 \<and> r = r0)"
proof -
  from try_block_quiet[OF assms] obtain evs where
    evs: "trace s1 = trace s @ evs" "\<forall>d. Delete d \<notin> set evs"
    by (auto simp: quiet_def)
  obtain rf s2 where f: "finally_block ext e s1 = (rf, s2)"
    by (cases "finally_block ext e s1")
  define r where "r = (case rf of None \<Rightarrow> r0 | Some x \<Rightarrow> Raise x)"
  have it: "iteration ext e crr s = Some (r, s2)"
    using assms f by (simp add: iteration_def r_def split: option.splits)
  have r: "r = r0 \<or> (\<exists>x. r = Raise x)" by (cases rf) (auto simp: r_def)
  have ready: "is_ready ext e (world s1) \<longrightarrow>
         trace s2 = trace s1 @ [Delete e] \<and> (r = r0 \<or> (\<exists>x. r = Raise x))"
    using finally_block_trace[OF f] r by simp
  have not_ready: "\<not> is_ready ext e (world s1) \<longrightarrow> s2 = s1 \<and> r = r0"
    using finally_block_trace[OF f] by (auto simp: r_def)
  from it evs ready not_ready show ?thesis by blast
qed

theorem deprovision_when_ready_witness:
  "\<exists>r0 s1. try_block (example_externals True True) () [0] empty_state = Some (r0, s1) \<and>
     is_ready (example_externals True True) () (world s1) \<and>
     deletions_after (iteration (example_externals True True) () [0] empty_state) () = Some 1"
proof -
  have "\<exists>r0 s1. try_block (example_externals True True) () [0] empty_state = Some (r0, s1) \<and>
      count_list (trace s1) (Delete ()) = 0"
    by (simp add: eval_runner eval_suite)
  then obtain r0 s1 where
    t: "try_block (example_externals True True) () [0] empty_state = Some (r0, s1)"
    and n: "count_list (trace s1) (Delete ()) = 0" by blast
  have ready: "is_ready (example_externals True True) () (world s1)"
    by (simp add: example_externals_def)
  from deprovision_when_ready[OF t] ready obtain r s2 where
    "iteration (example_externals True True) () [0] empty_state = Some (r, s2)"
    "trace s2 = trace s1 @ [Delete ()]" by blast
  then have "deletions_after (iteration (example_externals True True) () [0] empty_state) ()
      = Some 1"
    using n by (simp add: deletions_after_def)
  with t ready show ?thesis by blast
qed

lemma heap_advances_not_NOTRUN:
  "heap_advances h h1 \<Longrightarrow> status (h c) \<noteq> NOTRUN \<Longrightarrow> status (h1 c) \<noteq> NOTRUN"
  by (auto simp: heap_advances_def advances_def)

text \<open>
  C7. \<^verbatim>\<open>set_status\<close> hands a message to the notifier exactly when the new status differs from
  the status the result has: then it is one message, carrying the new status; setting the
  same status again notifies nothing. And no operation sets a status back to \<open>NOTRUN\<close>: over
  \<^verbatim>\<open>TestSuite.start\<close>, over \<^verbatim>\<open>_merge_test_requirements\<close>, over the loop over the environments
  and over the final skipping of what is left, a result whose status is not \<open>NOTRUN\<close> keeps
  a status other than \<open>NOTRUN\<close>.
\<close>

theorem notified_once_per_change:
  "(snd (set_status st m r) \<noteq> [] \<longleftrightarrow> status r \<noteq> st) \<and>
   (status r \<noteq> st \<longrightarrow>
      snd (set_status st m r) = [result_message (fst (set_status st m r))] \<and>
      msg_status (result_message (fst (set_status st m r))) = st) \<and>
   snd (set_status st m2 (fst (set_status st m r))) = [] \<and>
   (\<forall>s1 c. TestSuite_start cls e cs s = Some s1 \<and> status (heap s c) \<noteq> NOTRUN \<longrightarrow>
      status (heap s1 c) \<noteq> NOTRUN) \<and>
   (\<forall>r1 s1 c. merge_test_requirements ext cs s = (r1, s1) \<and> status (heap s c) \<noteq> NOTRUN \<longrightarrow>
      status (heap s1 c) \<noteq> NOTRUN) \<and>
   (\<forall>r1 s1 c. environments_loop ext es cs s = Some (r1, s1) \<and> status (heap s c) \<noteq> NOTRUN \<longrightarrow>
      status (heap s1 c) \<noteq> NOTRUN) \<and>
   (\<forall>c. status (heap s c) \<noteq> NOTRUN \<longrightarrow> status (heap (skip_not_run ext cs s) c) \<noteq> NOTRUN)"
proof -
  have iff: "snd (set_status st m r) \<noteq> [] \<longleftrightarrow> status r \<noteq> st"
    by (simp add: set_status_notes)
  have one: "status r \<noteq> st \<longrightarrow>
      snd (set_status st m r) = [result_message (fst (set_status st m r))] \<and>
      msg_status (result_message (fst (set_status st m r))) = st"
    by (simp add: set_status_notes result_message_def)
  have again: "snd (set_status st m2 (fst (set_status st m r))) = []"
    by (simp add: set_status_notes)
  have suite: "\<forall>s1 c. TestSuite_start cls e cs s = Some s1 \<and> status (heap s c) \<noteq> NOTRUN \<longrightarrow>
      status (heap s1 c) \<noteq> NOTRUN"
  proof (intro allI impI)
    fix s1 c assume a: "TestSuite_start cls e cs s = Some s1 \<and> status (heap s c) \<noteq> NOTRUN"
    then have "TestSuite_start cls e cs s = Some s1" by simp
    then have "quiet s s1" by (rule TestSuite_start_quiet)
    then have "heap_advances (heap s) (heap s1)" by (rule quiet_heap)
    from heap_advances_not_NOTRUN[OF this] a show "status (heap s1 c) \<noteq> NOTRUN" by simp
  qed
  have merged: "\<forall>r1 s1 c. merge_test_requirements ext cs s = (r1, s1) \<and> status (heap s c) \<noteq> NOTRUN \<longrightarrow>
      status (heap s1 c) \<noteq> NOTRUN"
  proof (intro allI impI)
    fix r1 s1 c
    assume a: "merge_test_requirements ext cs s = (r1, s1) \<and> status (heap s c) \<noteq> NOTRUN"
    then have "merge_test_requirements ext cs s = (r1, s1)" by simp
    then have "quiet s s1" by (rule merge_test_requirements_quiet)
    then have "heap_advances (heap s) (heap s1)" by (rule quiet_heap)
    from heap_advances_not_NOTRUN[OF this] a show "status (heap s1 c) \<noteq> NOTRUN" by simp
  qed
  have loop: "\<forall>r1 s1 c. environments_loop ext es cs s = Some (r1, s1) \<and> status (heap s c) \<noteq> NOTRUN \<longrightarrow>
      status (heap s1 c) \<noteq> NOTRUN"
  proof (intro allI impI)
    fix r1 s1 c
    assume a: "environments_loop ext es cs s = Some (r1, s1) \<and> status (heap s c) \<noteq> NOTRUN"
    then have "environments_loop ext es cs s = Some (r1, s1)" by simp
    from environments_loop_advances[OF this] have "heap_advances (heap s) (heap s1)" by simp
    from heap_advances_not_NOTRUN[OF this] a show "status (heap s1 c) \<noteq> NOTRUN" by simp
  qed
  have skipped: "\<forall>c. status (heap s c) \<noteq> NOTRUN \<longrightarrow> status (heap (skip_not_run ext cs s) c) \<noteq> NOTRUN"
  proof (intro allI impI)
    fix c assume a: "status (heap s c) \<noteq> NOTRUN"
    have "heap_advances (heap s) (heap (skip_not_run ext cs s))"
      using skip_not_run_quiet by (rule quiet_heap)
    from heap_advances_not_NOTRUN[OF this] a
    show "status (heap (skip_not_run ext cs s) c) \<noteq> NOTRUN" by simp
  qed
  from iff one again suite merged loop skipped show ?thesis by blast
qed

theorem notified_once_per_change_witness:
  "snd (set_status PASSED (Str []) (new_result (example_case ''good'' 0 False)))
     = [\<lparr>msg_type = ''TestResult'', msg_status = PASSED, msg_message = [], msg_env = []\<rparr>] \<and>
   snd (set_status PASSED (Str ''again'')
          (fst (set_status PASSED (Str []) (new_result (example_case ''good'' 0 False))))) = [] \<and>
   status_after (TestSuite_start failing_tests () [0] (fresh_state 0 False)) 0 = Some FAILED \<and>
   status_after (TestSuite_start example_suite () [0]
      (the (TestSuite_start failing_tests () [0] (fresh_state 0 False)))) 0 = Some PASSED"
  using notified_once_per_change [of PASSED "Str []" "new_result (example_case ''good'' 0 False)"
      "Str ''again'' " example_suite "()" "[0]"
      "the (TestSuite_start failing_tests () [0] (fresh_state 0 False))"
      "example_externals True True" "[()]"]
  by (simp add: eval_suite failing_tests_def example_suite_def fresh_state_def
      failing_hook_def passing_hook_def)

section \<open>A workload whose failures are ignored never fails\<close>

lemma unfailed_cong:
  "heap s1 t = heap s t \<Longrightarrow> unfailed t rd s \<Longrightarrow> unfailed t rd s1"
  by (simp add: unfailed_def)

lemma unfailed_set_status:
  assumes "unfailed t rd s" and "st = SKIPPED \<or> st = ATTEMPTED \<or> c \<noteq> t"
  shows "unfailed t rd (set_status_at c st m s)"
  using assms by (auto simp: unfailed_def set_status_at_heap)

lemma before_case_part_at:
  assumes "before_case_part cls e cont msg c s = Some (b, s1)"
  shows "(\<forall>i. i \<noteq> c \<longrightarrow> heap s1 i = heap s i) \<and> runtime_data (heap s1 c) = runtime_data (heap s c) \<and>
         (if b then heap s1 = heap s else status (heap s1 c) = SKIPPED)"
proof (cases cont)
  case False
  with assms have "s1 = set_status_at c SKIPPED (Str msg) s" "\<not> b"
    by (simp_all add: before_case_part_def)
  then show ?thesis by (simp add: set_status_at_heap)
next
  case True
  with assms obtain r s0 where
    rc: "retry_call (invoke (BeforeCase c) (before_case cls e))
           (retry (runtime_data (heap s c)) + 1) s = Some (r, s0)"
    by (auto simp: before_case_part_def split: option.splits)
  from retry_call_frame[OF rc] have h0: "heap s0 = heap s" by blast
  show ?thesis
  proof (cases r)
    case None
    with assms rc True have "s1 = s0" "b" by (simp_all add: before_case_part_def)
    with h0 show ?thesis by simp
  next
    case (Some x)
    with assms rc True have "s1 = set_status_at c SKIPPED (Str (''before_case: '' @ str_of x)) s0"
      "\<not> b" by (simp_all add: before_case_part_def)
    with h0 show ?thesis by (simp add: set_status_at_heap)
  qed
qed

lemma test_method_part_at:
  assumes "test_method_part cls e b c s = Some s1"
  shows "(\<forall>i. i \<noteq> c \<longrightarrow> heap s1 i = heap s i) \<and> runtime_data (heap s1 c) = runtime_data (heap s c) \<and>
         (\<not> b \<longrightarrow> s1 = s) \<and>
         (b \<and> 0 \<le> retry (runtime_data (heap s c)) \<and> ignore_failure (runtime_data (heap s c)) \<and>
            (\<forall>w. fst (test_method cls (name (runtime_data (heap s c))) e w) \<noteq> None) \<longrightarrow>
            status (heap s1 c) = ATTEMPTED)"
proof (cases b)
  case False
  with assms have "s1 = s" by (simp add: test_method_part_def)
  with False show ?thesis by simp
next
  case True
  let ?h = "test_method cls (name (runtime_data (heap s c))) e"
  let ?n = "retry (runtime_data (heap s c)) + 1"
  from assms True obtain r s0 where
    rc: "retry_call (invoke (TestMethod c) ?h) ?n s = Some (r, s0)"
    by (auto simp: test_method_part_def split: option.splits)
  from retry_call_frame[OF rc] have h0: "heap s0 = heap s" by blast
  have s1: "s1 = (case r of None \<Rightarrow> set_status_at c PASSED (Str []) s0
        | Some x \<Rightarrow> if ignore_failure (runtime_data (heap s0 c))
                     then set_status_at c ATTEMPTED (Str (str_of x)) s0
                     else set_status_at c FAILED (Str (''failed: '' @ str_of x)) s0)"
    using assms True rc by (auto simp: test_method_part_def split: option.splits)
  have frame: "(\<forall>i. i \<noteq> c \<longrightarrow> heap s1 i = heap s i) \<and>
      runtime_data (heap s1 c) = runtime_data (heap s c)"
    unfolding s1 using h0 by (auto simp: set_status_at_heap split: option.splits)
  have att: "status (heap s1 c) = ATTEMPTED"
    if a: "0 \<le> retry (runtime_data (heap s c))" "ignore_failure (runtime_data (heap s c))"
      "\<forall>w. fst (?h w) \<noteq> None"
  proof -
    have pos: "0 \<le> ?n" "0 < ?n" using a(1) by auto
    from retry_call_total[OF pos(1), of "TestMethod c" ?h s] pos(2) a(3) rc
    have "r \<noteq> None" by auto
    then obtain x where "r = Some x" by auto
    then show ?thesis unfolding s1 using a(2) h0 by (simp add: set_status_at_heap)
  qed
  from frame att True show ?thesis by blast
qed

lemma after_case_part_at:
  "after_case_part cls e c s = Some s1 \<Longrightarrow> heap s1 = heap s"
proof -
  assume "after_case_part cls e c s = Some s1"
  then obtain r where "retry_call (invoke (AfterCase c) (after_case cls e))
      (retry (runtime_data (heap s c)) + 1) s = Some (r, s1)"
    by (auto simp: after_case_part_def split: option.splits)
  from retry_call_frame[OF this] show ?thesis by blast
qed

lemma run_case_at:
  assumes "run_case cls e cont msg c s = Some s1"
  shows "(\<forall>i. i \<noteq> c \<longrightarrow> heap s1 i = heap s i) \<and> runtime_data (heap s1 c) = runtime_data (heap s c) \<and>
         (0 \<le> retry (runtime_data (heap s c)) \<and> ignore_failure (runtime_data (heap s c)) \<and>
            (\<forall>w. fst (test_method cls (name (runtime_data (heap s c))) e w) \<noteq> None) \<longrightarrow>
            status (heap s1 c) = SKIPPED \<or> status (heap s1 c) = ATTEMPTED)"
proof -
  from assms obtain b sa sb where
    p: "before_case_part cls e cont msg c s = Some (b, sa)"
       "test_method_part cls e b c sa = Some sb" "after_case_part cls e c sb = Some s1"
    by (auto simp: run_case_def split: option.splits)
  note B = before_case_part_at[OF p(1)]
  note T = test_method_part_at[OF p(2)]
  note A = after_case_part_at[OF p(3)]
  have frame: "\<forall>i. i \<noteq> c \<longrightarrow> heap s1 i = heap s i" using A B T by simp
  have rd: "runtime_data (heap s1 c) = runtime_data (heap s c)" using A B T by simp
  have st: "status (heap s1 c) = SKIPPED \<or> status (heap s1 c) = ATTEMPTED"
    if a: "0 \<le> retry (runtime_data (heap s c))" "ignore_failure (runtime_data (heap s c))"
      "\<forall>w. fst (test_method cls (name (runtime_data (heap s c))) e w) \<noteq> None"
  proof (cases b)
    case True
    with B have "heap sa = heap s" by simp
    with T True a have "status (heap sb c) = ATTEMPTED" by simp
    with A show ?thesis by simp
  next
    case False
    with B have "status (heap sa c) = SKIPPED" by simp
    moreover from T False have "sb = sa" by simp
    ultimately show ?thesis using A by simp
  qed
  from frame rd st show ?thesis by blast
qed

lemma run_case_unfailed:
  assumes run: "run_case cls e cont msg c s = Some s1"
    and u: "unfailed t rd s"
    and cls: "c = t \<longrightarrow> ignore_failure rd \<and> 0 \<le> retry rd \<and>
                (\<forall>w. fst (test_method cls (name rd) e w) \<noteq> None)"
  shows "unfailed t rd s1"
proof (cases "c = t")
  case False
  with run_case_at[OF run] have "heap s1 t = heap s t" by simp
  then show ?thesis using u by (rule unfailed_cong)
next
  case True
  from u have rd: "runtime_data (heap s t) = rd" by (simp add: unfailed_def)
  from run_case_at[OF run] True rd cls have
    "runtime_data (heap s1 t) = rd" "status (heap s1 t) = SKIPPED \<or> status (heap s1 t) = ATTEMPTED"
    by auto
  then show ?thesis by (auto simp: unfailed_def)
qed

lemma run_cases_unfailed:
  assumes "run_cases cls e cont msg cs s = Some s1"
    and "unfailed t rd s"
    and "t \<in> set cs \<longrightarrow> ignore_failure rd \<and> 0 \<le> retry rd \<and>
           (\<forall>w. fst (test_method cls (name rd) e w) \<noteq> None)"
  shows "unfailed t rd s1"
  using assms
proof (induction cs arbitrary: s)
  case Nil
  then show ?case by simp
next
  case (Cons c cs)
  from Cons.prems(1) obtain sa where sa: "run_case cls e cont msg c s = Some sa"
    by (auto split: option.splits)
  have ua: "unfailed t rd sa"
    using sa Cons.prems(2) by (rule run_case_unfailed) (use Cons.prems(3) in simp)
  show ?case
  proof (cases "should_stop cls (world sa)")
    case True
    with Cons.prems(1) sa have "s1 = sa" by simp
    with ua show ?thesis by simp
  next
    case False
    with Cons.prems(1) sa have "run_cases cls e cont msg cs sa = Some s1" by simp
    then show ?thesis using ua by (rule Cons.IH) (use Cons.prems(3) in simp)
  qed
qed

lemma TestSuite_start_unfailed:
  assumes run: "TestSuite_start cls e cs s = Some s1"
    and u: "unfailed t rd s"
    and cls: "t \<in> set cs \<longrightarrow> ignore_failure rd \<and> 0 \<le> retry rd \<and>
           (\<forall>w. fst (test_method cls (name rd) e w) \<noteq> None)"
  shows "unfailed t rd s1"
proof -
  obtain r s0 where inv: "invoke BeforeSuite (before_suite cls e) s = (r, s0)"
    by (cases "invoke BeforeSuite (before_suite cls e) s")
  with run obtain sa where
    rc: "run_cases cls e (r = None)
           (case r of None \<Rightarrow> [] | Some x \<Rightarrow> ''before_suite: '' @ str_of x) cs s0 = Some sa"
    and s1: "s1 = snd (invoke AfterSuite (after_suite cls e) sa)"
    by (auto simp: TestSuite_start_def split: option.splits)
  have "heap s0 = heap s" using invoke_heap[OF inv] by simp
  then have "unfailed t rd s0" using u by (simp add: unfailed_def)
  with rc have "unfailed t rd sa" by (rule run_cases_unfailed) (rule cls)
  moreover have "heap s1 = heap sa" unfolding s1 by (rule invoke_snd(1))
  ultimately show ?thesis by (simp add: unfailed_def)
qed

lemma quiet_runtime_data: "quiet s s1 \<Longrightarrow> runtime_data (heap s1 c) = runtime_data (heap s c)"
  by (simp add: quiet_def heap_advances_def advances_def)

lemma check_environment_at:
  assumes "check_environment ext c e save s = (r, s1)"
  shows "status (heap s1 i) = status (heap s i) \<and> runtime_data (heap s1 i) = runtime_data (heap s i)"
proof -
  have "status (heap (snd (check_environment ext c e save s)) i) = status (heap s i)"
    "runtime_data (heap (snd (check_environment ext c e save s)) i) = runtime_data (heap s i)"
    by (simp_all add: check_environment_def Let_def split: option.splits)
  with assms show ?thesis by simp
qed

lemma check_environment_unfailed:
  "check_environment ext c e save s = (r, s1) \<Longrightarrow> unfailed t rd s \<Longrightarrow> unfailed t rd s1"
  using check_environment_at[of ext c e save s r s1 t] by (simp add: unfailed_def)

lemma set_env_at:
  "status (set_env n cs h i) = status (h i) \<and> runtime_data (set_env n cs h i) = runtime_data (h i)"
  unfolding set_env_def by (induction cs arbitrary: h) simp_all

lemma run_suite_unfailed:
  assumes run: "run_suite ext e cs s = Some (r, s1)"
    and u: "unfailed t rd s"
    and ig: "always_ignored ext rd"
    and same: "t \<in> set cs \<longrightarrow> suite (runtime_data (heap s (hd cs))) = suite rd"
  shows "unfailed t rd s1"
proof (cases cs)
  case Nil
  with run have "s1 = s" by (simp add: run_suite_def)
  with u show ?thesis by simp
next
  case (Cons c0 rest)
  define cls where "cls = suite_class ext (suite (runtime_data (heap s c0)))"
  define sa where "sa = s\<lparr>world := new_suite cls e (world s)\<rparr>"
  define sb where "sb = sa\<lparr>heap := set_env (env_name ext e (world sa)) cs (heap sa)\<rparr>"
  from run Cons have start: "TestSuite_start cls e cs sb = Some s1"
    by (auto simp: run_suite_def Let_def cls_def sa_def sb_def split: option.splits)
  have ub: "unfailed t rd sb"
    using u set_env_at[of "env_name ext e (world sa)" cs "heap s" t]
    by (simp add: unfailed_def sb_def sa_def)
  have "t \<in> set cs \<longrightarrow> ignore_failure rd \<and> 0 \<le> retry rd \<and>
           (\<forall>w. fst (test_method cls (name rd) e w) \<noteq> None)"
  proof
    assume "t \<in> set cs"
    with same Cons have "cls = suite_class ext (suite rd)" by (auto simp: cls_def)
    with ig show "ignore_failure rd \<and> 0 \<le> retry rd \<and>
           (\<forall>w. fst (test_method cls (name rd) e w) \<noteq> None)"
      by (simp add: always_ignored_def)
  qed
  with start ub show ?thesis by (rule TestSuite_start_unfailed)
qed

lemma any_needed_unfailed:
  "any_needed ext e cs s = (r, s1) \<Longrightarrow> unfailed t rd s \<Longrightarrow> unfailed t rd s1"
proof (induction cs arbitrary: s)
  case Nil
  then show ?case by simp
next
  case (Cons c cs)
  show ?case
  proof (cases "can_run (heap s c)")
    case False
    with Cons.prems(1) have "any_needed ext e cs s = (r, s1)" by simp
    then show ?thesis using Cons.prems(2) by (rule Cons.IH)
  next
    case True
    obtain b sa where ce: "check_environment ext c e True s = (b, sa)"
      by (cases "check_environment ext c e True s")
    have ua: "unfailed t rd sa" using ce Cons.prems(2) by (rule check_environment_unfailed)
    show ?thesis
    proof (cases b)
      case (Raise x)
      with Cons.prems(1) True ce have "s1 = sa" by simp
      with ua show ?thesis by simp
    next
      case (Return v)
      show ?thesis
      proof (cases v)
        case True
        with Cons.prems(1) \<open>can_run (heap s c)\<close> ce Return have "s1 = sa" by simp
        with ua show ?thesis by simp
      next
        case False
        with Cons.prems(1) \<open>can_run (heap s c)\<close> ce Return have
          "any_needed ext e cs sa = (r, s1)" by simp
        then show ?thesis using ua by (rule Cons.IH)
      qed
    qed
  qed
qed

lemma run_new_env_unfailed:
  assumes ig: "always_ignored ext rd"
  shows "run_new_env ext e cs s = Some (r, s1) \<Longrightarrow> unfailed t rd s \<Longrightarrow> unfailed t rd s1"
proof (induction cs arbitrary: s)
  case Nil
  then show ?case by simp
next
  case (Cons c cs)
  obtain b sa where ce: "check_environment ext c e True s = (b, sa)"
    by (cases "check_environment ext c e True s")
  have ua: "unfailed t rd sa" using ce Cons.prems(2) by (rule check_environment_unfailed)
  show ?case
  proof (cases b)
    case (Raise x)
    with Cons.prems(1) ce have "s1 = sa" by simp
    with ua show ?thesis by simp
  next
    case (Return v)
    show ?thesis
    proof (cases v)
      case True
      with Cons.prems(1) ce Return have rs: "run_suite ext e [c] sa = Some (r, s1)" by simp
      have "t \<in> set [c] \<longrightarrow> suite (runtime_data (heap sa (hd [c]))) = suite rd"
        using ua by (auto simp: unfailed_def)
      with rs ua ig show ?thesis by (rule run_suite_unfailed)
    next
      case False
      with Cons.prems(1) ce Return have "run_new_env ext e cs sa = Some (r, s1)" by simp
      then show ?thesis using ua by (rule Cons.IH)
    qed
  qed
qed

lemma run_grouped_unfailed:
  assumes ig: "always_ignored ext rd"
  shows "run_grouped ext e cs grouped current s = Some (r, s1) \<Longrightarrow> unfailed t rd s \<Longrightarrow>
     \<forall>c \<in> set grouped. Some (suite (runtime_data (heap s c))) = current \<Longrightarrow>
     unfailed t rd s1 \<and>
     (\<forall>g. r = Return g \<longrightarrow> (\<exists>cur. \<forall>c \<in> set g. Some (suite (runtime_data (heap s1 c))) = cur))"
proof (induction cs arbitrary: grouped current s)
  case Nil
  then show ?case by auto
next
  case (Cons c cs)
  note run = Cons.prems(1) and u = Cons.prems(2) and G = Cons.prems(3)
  show ?case
  proof (cases "can_run (heap s c)")
    case False
    with run have "run_grouped ext e cs grouped current s = Some (r, s1)" by simp
    then show ?thesis using u G by (rule Cons.IH)
  next
    case True
    obtain b sa where ce: "check_environment ext c e True s = (b, sa)"
      by (cases "check_environment ext c e True s")
    have ua: "unfailed t rd sa" using ce u by (rule check_environment_unfailed)
    have rda: "\<And>i. runtime_data (heap sa i) = runtime_data (heap s i)"
      using check_environment_at[OF ce] by simp
    have Ga: "\<forall>d \<in> set grouped. Some (suite (runtime_data (heap sa d))) = current"
      using G rda by simp
    show ?thesis
    proof (cases b)
      case (Raise x)
      with run True ce have "s1 = sa" "r = Raise x" by simp_all
      with ua show ?thesis by simp
    next
      case (Return v)
      show ?thesis
      proof (cases "v \<and> \<not> use_new_environment (runtime_data (heap sa c))")
        case False
        with run True ce Return have
          "run_grouped ext e cs grouped current sa = Some (r, s1)" by auto
        then show ?thesis using ua Ga by (rule Cons.IH)
      next
        case take: True
        let ?st = "suite (runtime_data (heap sa c))"
        show ?thesis
        proof (cases "Some ?st \<noteq> current \<and> grouped \<noteq> []")
          case False
          with run True ce Return take have
            rec: "run_grouped ext e cs (grouped @ [c]) (Some ?st) sa = Some (r, s1)" by auto
          have "\<forall>d \<in> set (grouped @ [c]). Some (suite (runtime_data (heap sa d))) = Some ?st"
            using False Ga by auto
          with rec ua show ?thesis by (rule Cons.IH)
        next
          case flush: True
          from run True ce Return take flush obtain rb sb where
            rs: "run_suite ext e grouped sa = Some (rb, sb)"
            by (auto split: option.splits)
          have hd_in: "hd grouped \<in> set grouped" using flush by simp
          have "t \<in> set grouped \<longrightarrow> suite (runtime_data (heap sa (hd grouped))) = suite rd"
          proof
            assume "t \<in> set grouped"
            with Ga hd_in have "suite (runtime_data (heap sa (hd grouped)))
                = suite (runtime_data (heap sa t))"
              by (metis option.inject)
            then show "suite (runtime_data (heap sa (hd grouped))) = suite rd"
              using ua by (simp add: unfailed_def)
          qed
          with rs ua ig have ub: "unfailed t rd sb" by (rule run_suite_unfailed)
          show ?thesis
          proof (cases rb)
            case (Raise x)
            with run True ce Return take flush rs have "s1 = sb" "r = Raise x" by auto
            with ub show ?thesis by simp
          next
            case R2: (Return w)
            with run True ce Return take flush rs have
              rec: "run_grouped ext e cs [c] (Some (suite (runtime_data (heap sb c)))) sb
                 = Some (r, s1)" by auto
            have "\<forall>d \<in> set [c]. Some (suite (runtime_data (heap sb d)))
                = Some (suite (runtime_data (heap sb c)))" by simp
            with rec ub show ?thesis by (rule Cons.IH)
          qed
        qed
      qed
    qed
  qed
qed

lemma and_then_preserves:
  assumes run: "and_then m f = Some (r, s1)"
    and first: "\<And>r0 s0. m = Some (r0, s0) \<Longrightarrow> P s0"
    and rest: "\<And>a s0. m = Some (Return a, s0) \<Longrightarrow> f a s0 = Some (r, s1) \<Longrightarrow> P s0 \<Longrightarrow> P s1"
  shows "P s1"
proof -
  from and_then_cases[OF run] show ?thesis
  proof
    assume "\<exists>x. m = Some (Raise x, s1) \<and> r = Raise x"
    then show ?thesis using first by blast
  next
    assume "\<exists>a s0. m = Some (Return a, s0) \<and> f a s0 = Some (r, s1)"
    then obtain a s0 where m: "m = Some (Return a, s0)" and f: "f a s0 = Some (r, s1)" by blast
    from rest[OF m f first[OF m]] show ?thesis .
  qed
qed

lemma run_on_environment_unfailed:
  assumes ig: "always_ignored ext rd"
    and run: "run_on_environment ext e crr new_env s = Some (r, s1)"
    and u: "unfailed t rd s"
  shows "unfailed t rd s1"
proof -
  from and_then_cases[OF run[unfolded run_on_environment_def]] show ?thesis
  proof
    assume "\<exists>x. run_new_env ext e new_env s = Some (Raise x, s1) \<and> r = Raise x"
    then obtain x where "run_new_env ext e new_env s = Some (Raise x, s1)" by blast
    from run_new_env_unfailed[OF ig this u] show ?thesis .
  next
    assume "\<exists>a sa. run_new_env ext e new_env s = Some (Return a, sa) \<and>
        and_then (run_grouped ext e crr [] None sa) (\<lambda>grouped_cases s2.
          if grouped_cases \<noteq> [] then run_suite ext e grouped_cases s2
          else Some (Return (), s2)) = Some (r, s1)"
    then obtain a sa where
      n: "run_new_env ext e new_env s = Some (Return a, sa)"
      and g: "and_then (run_grouped ext e crr [] None sa) (\<lambda>grouped_cases s2.
          if grouped_cases \<noteq> [] then run_suite ext e grouped_cases s2
          else Some (Return (), s2)) = Some (r, s1)"
      by blast
    have ua: "unfailed t rd sa" using run_new_env_unfailed[OF ig n u] .
    have G0: "\<forall>c \<in> set []. Some (suite (runtime_data (heap sa c))) = None" by simp
    from and_then_cases[OF g] show ?thesis
    proof
      assume "\<exists>x. run_grouped ext e crr [] None sa = Some (Raise x, s1) \<and> r = Raise x"
      then obtain x where "run_grouped ext e crr [] None sa = Some (Raise x, s1)" by blast
      from run_grouped_unfailed[OF ig this ua G0] show ?thesis by simp
    next
      assume "\<exists>gr sb. run_grouped ext e crr [] None sa = Some (Return gr, sb) \<and>
          (if gr \<noteq> [] then run_suite ext e gr sb else Some (Return (), sb)) = Some (r, s1)"
      then obtain gr sb where
        rg: "run_grouped ext e crr [] None sa = Some (Return gr, sb)"
        and last: "(if gr \<noteq> [] then run_suite ext e gr sb else Some (Return (), sb))
                     = Some (r, s1)"
        by blast
      from run_grouped_unfailed[OF ig rg ua G0] obtain cur where
        ub: "unfailed t rd sb" and same: "\<forall>c \<in> set gr. Some (suite (runtime_data (heap sb c))) = cur"
        by blast
      show ?thesis
      proof (cases "gr = []")
        case True
        with last have "s1 = sb" by simp
        with ub show ?thesis by simp
      next
        case False
        with last have rs: "run_suite ext e gr sb = Some (r, s1)" by simp
        have hd_in: "hd gr \<in> set gr" using False by simp
        have "t \<in> set gr \<longrightarrow> suite (runtime_data (heap sb (hd gr))) = suite rd"
        proof
          assume "t \<in> set gr"
          with same hd_in have "suite (runtime_data (heap sb (hd gr)))
              = suite (runtime_data (heap sb t))"
            by (metis option.inject)
          then show "suite (runtime_data (heap sb (hd gr))) = suite rd"
            using ub by (simp add: unfailed_def)
        qed
        with rs ub ig show ?thesis by (rule run_suite_unfailed)
      qed
    qed
  qed
qed

lemma deploy_heap: "deploy ext e s = (r, s1) \<Longrightarrow> heap s1 = heap s"
  by (auto simp: deploy_def invoke_def split: prod.splits option.splits exn.splits)

lemma try_block_unfailed:
  assumes ig: "always_ignored ext rd"
    and run: "try_block ext e can_run_results s = Some (r, s1)"
    and u: "unfailed t rd s"
  shows "unfailed t rd s1"
proof -
  define crr where "crr = sort_key (\<lambda>c. suite (runtime_data (heap s c)))
                            (filter (\<lambda>c. can_run (heap s c)) can_run_results)"
  define new_env where "new_env = filter (\<lambda>c. use_new_environment (runtime_data (heap s c))) crr"
  show ?thesis
  proof (cases "crr = []")
    case True
    with run have "s1 = s" by (simp add: try_block_def Let_def crr_def)
    with u show ?thesis by simp
  next
    case False
    with run have run1: "and_then (Some (any_needed ext e crr s)) (\<lambda>is_needed s1.
           if \<not> is_needed then Some (Return (Next, crr), s1)
           else and_then (Some (deploy ext e s1)) (\<lambda>deployed s2.
             if \<not> deployed then Some (Return (Next, crr), s2)
             else if \<not> is_ready ext e (world s2) then Some (Return (Next, crr), s2)
             else and_then (run_on_environment ext e crr new_env s2)
                    (\<lambda>_ s3. Some (Return (Next, crr), s3)))) = Some (r, s1)"
      unfolding try_block_def Let_def crr_def[symmetric] new_env_def[symmetric] by simp
    show ?thesis
    proof (rule and_then_preserves[OF run1, where P = "unfailed t rd"])
      fix r0 s0 assume "Some (any_needed ext e crr s) = Some (r0, s0)"
      then have "any_needed ext e crr s = (r0, s0)" by simp
      then show "unfailed t rd s0" using u by (rule any_needed_unfailed)
    next
      fix is_needed sa
      assume ua: "unfailed t rd sa"
        and b: "(if \<not> is_needed then Some (Return (Next, crr), sa)
           else and_then (Some (deploy ext e sa)) (\<lambda>deployed s2.
             if \<not> deployed then Some (Return (Next, crr), s2)
             else if \<not> is_ready ext e (world s2) then Some (Return (Next, crr), s2)
             else and_then (run_on_environment ext e crr new_env s2)
                    (\<lambda>_ s3. Some (Return (Next, crr), s3)))) = Some (r, s1)"
      show "unfailed t rd s1"
      proof (cases is_needed)
        case False
        with b have "s1 = sa" by simp
        with ua show ?thesis by simp
      next
        case True
        with b have c: "and_then (Some (deploy ext e sa)) (\<lambda>deployed s2.
             if \<not> deployed then Some (Return (Next, crr), s2)
             else if \<not> is_ready ext e (world s2) then Some (Return (Next, crr), s2)
             else and_then (run_on_environment ext e crr new_env s2)
                    (\<lambda>_ s3. Some (Return (Next, crr), s3))) = Some (r, s1)" by simp
        show ?thesis
        proof (rule and_then_preserves[OF c, where P = "unfailed t rd"])
          fix r0 s0 assume "Some (deploy ext e sa) = Some (r0, s0)"
          then have "deploy ext e sa = (r0, s0)" by simp
          from deploy_heap[OF this] show "unfailed t rd s0" using ua by (simp add: unfailed_def)
        next
          fix deployed sb
          assume ub: "unfailed t rd sb"
            and d: "(if \<not> deployed then Some (Return (Next, crr), sb)
             else if \<not> is_ready ext e (world sb) then Some (Return (Next, crr), sb)
             else and_then (run_on_environment ext e crr new_env sb)
                    (\<lambda>_ s3. Some (Return (Next, crr), s3))) = Some (r, s1)"
          show "unfailed t rd s1"
          proof (cases "deployed \<and> is_ready ext e (world sb)")
            case False
            with d have "s1 = sb" by (auto split: if_splits)
            with ub show ?thesis by simp
          next
            case True
            with d have f: "and_then (run_on_environment ext e crr new_env sb)
                    (\<lambda>_ s3. Some (Return (Next, crr), s3)) = Some (r, s1)" by simp
            show ?thesis
            proof (rule and_then_preserves[OF f, where P = "unfailed t rd"])
              fix r0 s0 assume "run_on_environment ext e crr new_env sb = Some (r0, s0)"
              from run_on_environment_unfailed[OF ig this ub] show "unfailed t rd s0" .
            next
              fix w s3 assume "unfailed t rd s3" "Some (Return (Next, crr), s3) = Some (r, s1)"
              then show "unfailed t rd s1" by simp
            qed
          qed
        qed
      qed
    qed
  qed
qed

lemma environments_loop_unfailed:
  assumes ig: "always_ignored ext rd"
  shows "environments_loop ext es crr s = Some (r, s1) \<Longrightarrow> unfailed t rd s \<Longrightarrow> unfailed t rd s1"
proof (induction es arbitrary: crr s)
  case Nil
  then show ?case by simp
next
  case (Cons e es)
  from Cons.prems(1) obtain ri sa where it: "iteration ext e crr s = Some (ri, sa)"
    by (auto split: option.splits)
  from iteration_cases[OF it] obtain r0 sm rf where
    t: "try_block ext e crr s = Some (r0, sm)" and f: "finally_block ext e sm = (rf, sa)"
    by blast
  have "unfailed t rd sm" using try_block_unfailed[OF ig t Cons.prems(2)] .
  then have ua: "unfailed t rd sa" using finally_block_heap[OF f] by (simp add: unfailed_def)
  show ?case
  proof (cases ri)
    case (Raise x)
    with Cons.prems(1) it have "s1 = sa" by simp
    with ua show ?thesis by simp
  next
    case (Return p)
    obtain ctl crra where p: "p = (ctl, crra)" by (cases p)
    show ?thesis
    proof (cases ctl)
      case Break
      with Cons.prems(1) it Return p have "s1 = sa" by simp
      with ua show ?thesis by simp
    next
      case Next
      with Cons.prems(1) it Return p have "environments_loop ext es crra sa = Some (r, s1)"
        by simp
      then show ?thesis using ua by (rule Cons.IH)
    qed
  qed
qed

lemma merge_loop_unfailed:
  "merge_loop ext cs s = (r, s1) \<Longrightarrow> unfailed t rd s \<Longrightarrow> unfailed t rd s1"
proof (induction cs arbitrary: s)
  case Nil
  then show ?case by simp
next
  case (Cons c cs)
  define sa where "sa = check_platform_type ext c s"
  have "sa = s \<or> (\<exists>m. sa = set_status_at c SKIPPED m s)"
    unfolding sa_def check_platform_type_def Let_def by auto
  then have ua: "unfailed t rd sa"
    using Cons.prems(2) unfailed_set_status[of t rd s SKIPPED c] by auto
  obtain rb sb where m: "merge_one ext c s = (rb, sb)" by (cases "merge_one ext c s")
  then have "sb = sa \<or> (\<exists>w. sb = sa\<lparr>world := w\<rparr>)"
    unfolding merge_one_def sa_def[symmetric] request_environment_def
    by (auto split: if_splits option.splits prod.splits)
  then have ub: "unfailed t rd sb" using ua by (auto simp: unfailed_def)
  show ?case
  proof (cases rb)
    case (Raise x)
    with Cons.prems(1) m have "s1 = sb" by simp
    with ub show ?thesis by simp
  next
    case (Return w)
    with Cons.prems(1) m have "merge_loop ext cs sb = (r, s1)" by simp
    then show ?thesis using ub by (rule Cons.IH)
  qed
qed

lemma schedule_unfailed:
  assumes ig: "always_ignored ext (cases ! t)" and t: "t < length cases"
    and run: "schedule ext cases s = Some (r, sl)"
  shows "unfailed t (cases ! t) sl"
proof -
  define s0 where "s0 = s\<lparr>heap := create_test_results cases 0 (heap s)\<rparr>"
  have u0: "unfailed t (cases ! t) s0"
    using t by (simp add: unfailed_def s0_def create_test_results_at new_result_def)
  have run1: "and_then (Some (merge_test_requirements ext [0 ..< length cases] s0)) (\<lambda>_ s1.
         and_then (case prepare_environments ext (world s1) of
                     (r, w) \<Rightarrow> Some (r, s1\<lparr>world := w\<rparr>)) (\<lambda>prepared_environments s2.
           environments_loop ext prepared_environments [0 ..< length cases] s2))
       = Some (r, sl)"
    using run unfolding schedule_def Let_def s0_def by simp
  show ?thesis
  proof (rule and_then_preserves[OF run1, where P = "unfailed t (cases ! t)"])
    fix r0 sa assume "Some (merge_test_requirements ext [0 ..< length cases] s0) = Some (r0, sa)"
    then have "merge_test_requirements ext [0 ..< length cases] s0 = (r0, sa)" by simp
    then have "sa = s0 \<or> merge_loop ext [0 ..< length cases] s0 = (r0, sa)"
      by (auto simp: merge_test_requirements_def split: if_splits)
    then show "unfailed t (cases ! t) sa" using u0 merge_loop_unfailed by blast
  next
    fix w sa
    assume ua: "unfailed t (cases ! t) sa"
      and rest: "and_then (case prepare_environments ext (world sa) of
                     (r, w) \<Rightarrow> Some (r, sa\<lparr>world := w\<rparr>)) (\<lambda>prepared_environments s2.
           environments_loop ext prepared_environments [0 ..< length cases] s2) = Some (r, sl)"
    show "unfailed t (cases ! t) sl"
    proof (rule and_then_preserves[OF rest, where P = "unfailed t (cases ! t)"])
      fix r0 sb
      assume "(case prepare_environments ext (world sa) of
                 (r, w) \<Rightarrow> Some (r, sa\<lparr>world := w\<rparr>)) = Some (r0, sb)"
      then have "heap sb = heap sa" by (auto split: prod.splits)
      then show "unfailed t (cases ! t) sb" using ua by (simp add: unfailed_def)
    next
      fix es sb
      assume "unfailed t (cases ! t) sb"
        "environments_loop ext es [0 ..< length cases] sb = Some (r, sl)"
      then show "unfailed t (cases ! t) sl" using environments_loop_unfailed[OF ig] by blast
    qed
  qed
qed

lemma LisaRunner_start_unfailed:
  assumes ig: "always_ignored ext (cases ! t)" and t: "t < length cases"
    and run: "LisaRunner_start ext self cases s = Some (Return self1, s1)"
  shows "status (heap s1 t) = SKIPPED \<or> status (heap s1 t) = ATTEMPTED"
proof -
  from LisaRunner_start_cases[OF run] obtain crr sl where
    sch: "schedule ext cases s = Some (Return crr, sl)" and s1: "s1 = skip_not_run ext crr sl"
    by blast
  have u: "unfailed t (cases ! t) sl" using schedule_unfailed[OF ig t sch] .
  from schedule_results[OF sch] t have
    inlist: "status (heap sl t) = NOTRUN \<longrightarrow> t \<in> set crr" by blast
  show ?thesis
  proof (cases "status (heap sl t) = NOTRUN")
    case True
    with inlist show ?thesis by (simp add: s1 skip_not_run_heap can_run_def)
  next
    case False
    then have "heap s1 t = heap sl t" by (simp add: s1 skip_not_run_heap can_run_def)
    with u False show ?thesis by (simp add: unfailed_def)
  qed
qed

lemma run_case_body_raises:
  assumes "0 \<le> retry (runtime_data (heap s c))"
    and body: "\<forall>w. fst (test_method cls (name (runtime_data (heap s c))) e w) \<noteq> None"
    and cont: "before_case_part cls e True msg c s = Some (True, s0)"
  shows "\<exists>s1. run_case cls e True msg c s = Some s1 \<and>
           status (heap s1 c)
             = (if ignore_failure (runtime_data (heap s c)) then ATTEMPTED else FAILED)"
proof -
  from cont obtain r where
    "retry_call (invoke (BeforeCase c) (before_case cls e)) (retry (runtime_data (heap s c)) + 1) s
       = Some (r, s0)"
    by (auto simp: before_case_part_def split: option.splits prod.splits)
  from retry_call_frame[OF this] have s0: "heap s0 = heap s" by blast
  have a0: "0 \<le> retry (runtime_data (heap s0 c))" using assms(1) s0 by simp
  from test_method_part_total[OF a0, of cls e] obtain r st0 st where
    t: "test_method_part cls e True c s0 = Some st" "heap st0 = heap s0"
       "(\<forall>w. fst (test_method cls (name (runtime_data (heap s0 c))) e w) \<noteq> None) \<longrightarrow> r \<noteq> None"
       "(case r of None \<Rightarrow> st = set_status_at c PASSED (Str []) st0
         | Some x \<Rightarrow>
             st = (if ignore_failure (runtime_data (heap s0 c))
                   then set_status_at c ATTEMPTED (Str (str_of x)) st0
                   else set_status_at c FAILED (Str (''failed: '' @ str_of x)) st0))"
    by (elim exE conjE) (rule that; assumption)
  from t(3) body s0 obtain x where x: "r = Some x" by auto
  have st: "status (heap st c) = (if ignore_failure (runtime_data (heap s c)) then ATTEMPTED else FAILED)"
    "runtime_data (heap st c) = runtime_data (heap s c)"
    using t(2,4) x s0 by (simp_all add: set_status_at_heap)
  have at: "0 \<le> retry (runtime_data (heap st c))" using assms(1) st(2) by simp
  from after_case_part_total[OF at, of cls e] obtain s1 where
    j: "after_case_part cls e c st = Some s1" "heap s1 = heap st"
    by (elim exE conjE) (rule that; assumption)
  have "run_case cls e True msg c s = Some s1"
    using cont t(1) j(1) by (simp add: run_case_def)
  then show ?thesis using j(2) st(1) by simp
qed

text \<open>
  C3. With \<^verbatim>\<open>ignore_failure\<close> set (and a retry setting that is not negative), a workload whose
  test method raises on every call, and whose \<^verbatim>\<open>before_case\<close> lets it continue, ends the pass
  of the loop of \<^verbatim>\<open>TestSuite.start\<close> with the status \<open>ATTEMPTED\<close>, not \<open>FAILED\<close>. And in a run
  of \<^verbatim>\<open>LisaRunner.start\<close> that returns, the result of such a workload is \<open>ATTEMPTED\<close>, or
  \<open>SKIPPED\<close> when its test method was not reached, never \<open>FAILED\<close>; the exit code, the number
  of \<open>FAILED\<close> results, is the number of \<open>FAILED\<close> results among the others.
\<close>

theorem ignored_failure_is_attempted:
  assumes "0 \<le> retry (runtime_data (heap s c))"
    and "ignore_failure (runtime_data (heap s c))"
    and "\<forall>w. fst (test_method cls (name (runtime_data (heap s c))) e w) \<noteq> None"
  shows "(\<forall>s0. before_case_part cls e True msg c s = Some (True, s0) \<longrightarrow>
            (\<exists>s1. run_case cls e True msg c s = Some s1 \<and> status (heap s1 c) = ATTEMPTED \<and>
               status (heap s1 c) \<noteq> FAILED)) \<and>
         (\<forall>self1 sf t. LisaRunner_start ext self cases sr = Some (Return self1, sf) \<and>
            t < length cases \<and> always_ignored ext (cases ! t) \<longrightarrow>
            (status (heap sf t) = ATTEMPTED \<or> status (heap sf t) = SKIPPED) \<and>
            status (heap sf t) \<noteq> FAILED \<and>
            exit_code self1 = int (length (filter (\<lambda>i. status (heap sf i) = FAILED)
                                              (remove1 t [0 ..< length cases]))))"
proof (intro conjI allI impI)
  fix s0 assume "before_case_part cls e True msg c s = Some (True, s0)"
  from run_case_body_raises[OF assms(1,3) this] assms(2)
  show "\<exists>s1. run_case cls e True msg c s = Some s1 \<and> status (heap s1 c) = ATTEMPTED \<and>
               status (heap s1 c) \<noteq> FAILED"
    by auto
next
  fix self1 sf t
  assume a: "LisaRunner_start ext self cases sr = Some (Return self1, sf) \<and>
            t < length cases \<and> always_ignored ext (cases ! t)"
  then have run: "LisaRunner_start ext self cases sr = Some (Return self1, sf)"
    and t: "t < length cases" and ig: "always_ignored ext (cases ! t)"
    by simp_all
  from LisaRunner_start_unfailed[OF ig t run]
  have st: "status (heap sf t) = SKIPPED \<or> status (heap sf t) = ATTEMPTED" .
  then show "status (heap sf t) = ATTEMPTED \<or> status (heap sf t) = SKIPPED" by blast
  from st show "status (heap sf t) \<noteq> FAILED" by auto
  from LisaRunner_start_cases[OF run] have
    ec: "exit_code self1
           = int (length (filter (\<lambda>i. status (heap sf i) = FAILED) [0 ..< length cases]))"
    by blast
  have "t \<notin> set (filter (\<lambda>i. status (heap sf i) = FAILED) [0 ..< length cases])"
    using st by auto
  then have "filter (\<lambda>i. status (heap sf i) = FAILED) (remove1 t [0 ..< length cases])
      = filter (\<lambda>i. status (heap sf i) = FAILED) [0 ..< length cases]"
    by (simp add: filter_remove1 remove1_idem)
  with ec show "exit_code self1 = int (length (filter (\<lambda>i. status (heap sf i) = FAILED)
                                              (remove1 t [0 ..< length cases])))"
    by simp
qed

theorem ignored_failure_is_attempted_witness:
  "0 \<le> retry (runtime_data (heap (fresh_state 1 True) 0)) \<and>
   ignore_failure (runtime_data (heap (fresh_state 1 True) 0)) \<and>
   status_after (run_case failing_tests () True [] 0 (fresh_state 1 True)) 0 = Some ATTEMPTED \<and>
   always_ignored (example_externals True True) (ignored_bad ! 0) \<and>
   (\<exists>self1 sf. LisaRunner_start (example_externals True True) new_runner ignored_bad empty_state
        = Some (Return self1, sf) \<and>
      status (heap sf 0) = ATTEMPTED \<and> status (heap sf 1) = FAILED \<and> exit_code self1 = 1)"
proof -
  have "\<exists>self1 sf. LisaRunner_start (example_externals True True) new_runner ignored_bad
        empty_state = Some (Return self1, sf) \<and>
      status (heap sf 0) = ATTEMPTED \<and> status (heap sf 1) = FAILED"
    by (simp add: eval_runner eval_suite ignored_bad_def)
  then obtain self1 sf where
    run: "LisaRunner_start (example_externals True True) new_runner ignored_bad empty_state
        = Some (Return self1, sf)"
    and st: "status (heap sf 0) = ATTEMPTED" "status (heap sf 1) = FAILED"
    by blast
  have hyps: "0 \<le> retry (runtime_data (heap (fresh_state 1 True) 0))"
    "ignore_failure (runtime_data (heap (fresh_state 1 True) 0))"
    "\<forall>w. fst (test_method failing_tests (name (runtime_data (heap (fresh_state 1 True) 0))) () w)
       \<noteq> None"
    by (simp_all add: fresh_state_def new_result_def example_case_def failing_tests_def
        failing_hook_def)
  have ig: "always_ignored (example_externals True True) (ignored_bad ! 0)"
    by (simp add: always_ignored_def ignored_bad_def example_case_def example_externals_def
        example_suite_def failing_hook_def)
  have t: "(0::nat) < length ignored_bad" by (simp add: ignored_bad_def)
  note inst = ignored_failure_is_attempted[OF hyps, of "[]" "example_externals True True"
      new_runner ignored_bad empty_state]
  have len: "remove1 0 [0 ..< length ignored_bad] = [1]"
    by (simp add: ignored_bad_def upt_rec)
  from inst run t ig have "exit_code self1
      = int (length (filter (\<lambda>i. status (heap sf i) = FAILED) (remove1 0 [0 ..< length ignored_bad])))"
    by blast
  then have ec: "exit_code self1 = 1" using st(2) by (simp add: len)
  have "status_after (run_case failing_tests () True [] 0 (fresh_state 1 True)) 0 = Some ATTEMPTED"
    by (simp add: eval_suite failing_tests_def fresh_state_def failing_hook_def passing_hook_def)
  with hyps(1,2) ig run st ec show ?thesis by blast
qed

end
